theory Spec2Isabelle
  imports Main "HOL-Library.Word"
begin

unbundle bit_operations_syntax

section \<open>The LZ4 block decoder of lib/lz4/lz4\_decompress.c\<close>

text \<open>
  The development embeds \<^verbatim>\<open>LZ4_decompress_generic\<close> and its two instances
  \<^verbatim>\<open>LZ4_decompress_safe\<close> and \<^verbatim>\<open>LZ4_decompress_fast\<close>.

  Conventions of the embedding.
  \<^item> The compressed input is a byte list \<open>src\<close>: the memory that may be read through
    the source pointer. A read outside of it is undefined behaviour in C and is the
    outcome \<open>Fault\<close> here. The size argument passed by the caller is a separate
    value (\<open>srcSize\<close>), as in the C signature.
  \<^item> The output side is a memory addressed by integers relative to \<open>dst\<close>
    (\<open>dst\<close> is address 0, the 64 KiB prefix sits at negative addresses). Every store
    is recorded in the set \<open>written\<close>, so that a store outside the caller's region
    is visible.
  \<^item> Pointers are integers relative to \<open>src\<close> (for \<open>ip\<close>, \<open>iend\<close>) and to \<open>dst\<close>
    (for \<open>op\<close>, \<open>oend\<close>, \<open>cpy\<close>, \<open>match\<close>). Pointer arithmetic is exact, except in
    the two overflow tests on \<open>uptrval\<close>, which are evaluated on the 64-bit machine
    addresses \<open>src_addr + ip\<close> and \<open>dst_addr + op\<close>.
  \<^item> The input and the output regions do not overlap (no in-place decompression).
  \<^item> \<open>int\<close> arguments and the \<open>int\<close> result are 32-bit words read with \<open>sint\<close>.
\<close>

subsection \<open>Constants, directives and tables\<close>

text \<open>
  Modelled from the spec: the constants, the directive enumerations and the two
  overlap tables are declared in lz4defs.h, which is not among the sources. Their
  values are those of the specification (sections 4.1, 6 and 9); the names are the
  ones the decoder uses.
\<close>

abbreviation (input) ML_BITS :: nat where "ML_BITS \<equiv> 4"
abbreviation (input) ML_MASK :: int where "ML_MASK \<equiv> 15"
abbreviation (input) RUN_MASK :: int where "RUN_MASK \<equiv> 15"
abbreviation (input) MINMATCH :: int where "MINMATCH \<equiv> 4"
abbreviation (input) WILDCOPYLENGTH :: int where "WILDCOPYLENGTH \<equiv> 8"
abbreviation (input) LASTLITERALS :: int where "LASTLITERALS \<equiv> 5"
abbreviation (input) MFLIMIT :: int where "MFLIMIT \<equiv> 12"
abbreviation (input) MATCH_SAFEGUARD_DISTANCE :: int where "MATCH_SAFEGUARD_DISTANCE \<equiv> 12"
abbreviation (input) FASTLOOP_SAFE_DISTANCE :: int where "FASTLOOP_SAFE_DISTANCE \<equiv> 64"
abbreviation (input) KB :: int where "KB \<equiv> 1024"

datatype endCondition_directive = endOnOutputSize | endOnInputSize
datatype earlyEnd_directive = decode_full_block | partial_decode
datatype dict_directive = noDict | withPrefix64k | usingExtDict
datatype variable_length_error = loop_error | initial_error | ok

definition inc32table :: "int list" where
  "inc32table = [0, 1, 2, 1, 4, 4, 4, 4]"

definition dec64table :: "int list" where
  "dec64table = [0, 0, 0, -1, 0, 1, 2, 3]"

subsection \<open>Memory\<close>

type_synonym byte = "8 word"

record memory =
  cells :: "int \<Rightarrow> byte"
  written :: "int set"

definition poke_block :: "memory \<Rightarrow> int \<Rightarrow> byte list \<Rightarrow> memory" where
  "poke_block m a bs =
     \<lparr>cells = (\<lambda>i. if a \<le> i \<and> i < a + int (length bs) then bs ! nat (i - a) else cells m i),
      written = written m \<union> {a ..< a + int (length bs)}\<rparr>"

definition poke :: "memory \<Rightarrow> int \<Rightarrow> byte \<Rightarrow> memory" where
  "poke m a v = poke_block m a [v]"

definition peek_block :: "memory \<Rightarrow> int \<Rightarrow> nat \<Rightarrow> byte list" where
  "peek_block m a n = map (\<lambda>k. cells m (a + int k)) [0 ..< n]"

text \<open>\<^verbatim>\<open>memcpy(d, s, n)\<close> with both pointers in the output memory: the \<open>n\<close> bytes are
  loaded, then stored.\<close>

definition memcpy :: "memory \<Rightarrow> int \<Rightarrow> int \<Rightarrow> nat \<Rightarrow> memory" where
  "memcpy m d s n = poke_block m d (peek_block m s n)"

definition src_byte :: "byte list \<Rightarrow> int \<Rightarrow> byte option" where
  "src_byte src i = (if 0 \<le> i \<and> i < int (length src) then Some (src ! nat i) else None)"

definition src_bytes :: "byte list \<Rightarrow> int \<Rightarrow> nat \<Rightarrow> byte list option" where
  "src_bytes src i n =
     (if 0 \<le> i \<and> i + int n \<le> int (length src) then Some (take n (drop (nat i) src)) else None)"

text \<open>\<^verbatim>\<open>memcpy(d, s, n)\<close> and \<^verbatim>\<open>LZ4_memmove(d, s, n)\<close> with \<open>s\<close> in the input and \<open>d\<close> in the
  output memory.\<close>

definition memcpy_in :: "byte list \<Rightarrow> memory \<Rightarrow> int \<Rightarrow> int \<Rightarrow> nat \<Rightarrow> memory option" where
  "memcpy_in src m d s n = map_option (poke_block m d) (src_bytes src s n)"

text \<open>Modelled from the spec: \<^verbatim>\<open>LZ4_readLE16\<close> is declared in lz4defs.h; section 6 of the
  specification fixes the byte order (little-endian, 16 bits).\<close>

definition LZ4_readLE16 :: "byte list \<Rightarrow> int \<Rightarrow> int option" where
  "LZ4_readLE16 src i =
     (case src_bytes src i 2 of
        Some [a, b] \<Rightarrow> Some (uint a + 256 * uint b)
      | _ \<Rightarrow> None)"

text \<open>The comparison \<^verbatim>\<open>(uptrval)(p) + len < (uptrval)(p)\<close> on a 64-bit machine, for the
  pointer at offset \<open>p\<close> of the buffer whose machine address is \<open>base\<close>.\<close>

definition uptr_wraps :: "int \<Rightarrow> int \<Rightarrow> int \<Rightarrow> bool" where
  "uptr_wraps base p len = ((base + p + len) mod 2 ^ 64 < (base + p) mod 2 ^ 64)"

text \<open>The conversion of a pointer difference to \<^verbatim>\<open>size_t\<close> (64 bits).\<close>

definition size_t_of :: "int \<Rightarrow> int" where
  "size_t_of x = x mod 2 ^ 64"

subsection \<open>Wild copies\<close>

text \<open>Modelled from the spec: \<^verbatim>\<open>LZ4_wildCopy8\<close> and \<^verbatim>\<open>LZ4_copy8\<close> are declared in lz4defs.h.
  A wildcopy stores whole strides of 8 bytes, at least one, until the destination
  reaches \<open>dstEnd\<close> (specification, sections 4.5, 9 and the glossary); it has the shape
  of \<^verbatim>\<open>LZ4_wildCopy32\<close> below, which is in the sources.\<close>

function LZ4_wildCopy8 :: "memory \<Rightarrow> int \<Rightarrow> int \<Rightarrow> int \<Rightarrow> memory" where
  "LZ4_wildCopy8 m d s e =
     (let m' = memcpy m d s 8 in
      if d + 8 < e then LZ4_wildCopy8 m' (d + 8) (s + 8) e else m')"
  by pat_completeness auto
termination
  by (relation "measure (\<lambda>(m, d, s, e). nat (e - d))") auto

declare LZ4_wildCopy8.simps [simp del]

function LZ4_wildCopy8_in :: "byte list \<Rightarrow> memory \<Rightarrow> int \<Rightarrow> int \<Rightarrow> int \<Rightarrow> memory option" where
  "LZ4_wildCopy8_in src m d s e =
     (case memcpy_in src m d s 8 of
        None \<Rightarrow> None
      | Some m' \<Rightarrow> if d + 8 < e then LZ4_wildCopy8_in src m' (d + 8) (s + 8) e else Some m')"
  by pat_completeness auto
termination
  by (relation "measure (\<lambda>(src, m, d, s, e). nat (e - d))") auto

declare LZ4_wildCopy8_in.simps [simp del]

text \<open>\<^verbatim>\<open>LZ4_wildCopy32\<close> (lines 94--107): two copies of 16 bytes per stride of 32.\<close>

function LZ4_wildCopy32 :: "memory \<Rightarrow> int \<Rightarrow> int \<Rightarrow> int \<Rightarrow> memory" where
  "LZ4_wildCopy32 m d s e =
     (let m' = memcpy (memcpy m d s 16) (d + 16) (s + 16) 16 in
      if d + 32 < e then LZ4_wildCopy32 m' (d + 32) (s + 32) e else m')"
  by pat_completeness auto
termination
  by (relation "measure (\<lambda>(m, d, s, e). nat (e - d))") auto

declare LZ4_wildCopy32.simps [simp del]

function LZ4_wildCopy32_in :: "byte list \<Rightarrow> memory \<Rightarrow> int \<Rightarrow> int \<Rightarrow> int \<Rightarrow> memory option" where
  "LZ4_wildCopy32_in src m d s e =
     (case memcpy_in src m d s 16 of
        None \<Rightarrow> None
      | Some m1 \<Rightarrow>
          (case memcpy_in src m1 (d + 16) (s + 16) 16 of
             None \<Rightarrow> None
           | Some m' \<Rightarrow> if d + 32 < e then LZ4_wildCopy32_in src m' (d + 32) (s + 32) e else Some m'))"
  by pat_completeness auto
termination
  by (relation "measure (\<lambda>(src, m, d, s, e). nat (e - d))") auto

declare LZ4_wildCopy32_in.simps [simp del]

text \<open>The loop \<^verbatim>\<open>while (d < e) *d++ = *s++;\<close> (lines 575--576 and 617--618).\<close>

function byte_loop :: "memory \<Rightarrow> int \<Rightarrow> int \<Rightarrow> int \<Rightarrow> memory" where
  "byte_loop m d s e =
     (if d < e then byte_loop (poke m d (cells m s)) (d + 1) (s + 1) e else m)"
  by pat_completeness auto
termination
  by (relation "measure (\<lambda>(m, d, s, e). nat (e - d))") auto

declare byte_loop.simps [simp del]

text \<open>The first eight bytes of a match copy (lines 72--86 and, with the same statements,
  586--599): four single byte stores and a 4-byte copy steered by the two tables
  when \<open>offset < 8\<close>, one 8-byte copy otherwise. The result is the memory and the
  adjusted source pointer.\<close>

definition first8 :: "memory \<Rightarrow> int \<Rightarrow> int \<Rightarrow> int \<Rightarrow> memory \<times> int" where
  "first8 m d s offset =
     (if offset < 8 then
        (let m0 = poke m d (cells m s);
             m1 = poke m0 (d + 1) (cells m0 (s + 1));
             m2 = poke m1 (d + 2) (cells m1 (s + 2));
             m3 = poke m2 (d + 3) (cells m2 (s + 3));
             s1 = s + inc32table ! nat offset;
             m4 = memcpy m3 (d + 4) s1 4
         in (m4, s1 - dec64table ! nat offset))
      else (memcpy m d s 8, s + 8))"

text \<open>\<^verbatim>\<open>LZ4_memcpy_using_offset_base\<close> (lines 68--89).\<close>

definition LZ4_memcpy_using_offset_base :: "memory \<Rightarrow> int \<Rightarrow> int \<Rightarrow> int \<Rightarrow> int \<Rightarrow> memory" where
  "LZ4_memcpy_using_offset_base m dstPtr srcPtr dstEnd offset =
     (case first8 m dstPtr srcPtr offset of
        (m', srcPtr') \<Rightarrow> LZ4_wildCopy8 m' (dstPtr + 8) srcPtr' dstEnd)"

text \<open>The label \<^verbatim>\<open>copy_loop\<close> of \<^verbatim>\<open>LZ4_memcpy_using_offset\<close> (lines 133--139).\<close>

function copy_loop :: "memory \<Rightarrow> int \<Rightarrow> int \<Rightarrow> byte list \<Rightarrow> memory" where
  "copy_loop m d e v =
     (let m' = poke_block m d v in
      if d + 8 < e then copy_loop m' (d + 8) e v else m')"
  by pat_completeness auto
termination
  by (relation "measure (\<lambda>(m, d, e, v). nat (e - d))") auto

declare copy_loop.simps [simp del]

text \<open>\<^verbatim>\<open>LZ4_memcpy_using_offset\<close> (lines 109--140).\<close>

definition LZ4_memcpy_using_offset :: "memory \<Rightarrow> int \<Rightarrow> int \<Rightarrow> int \<Rightarrow> int \<Rightarrow> memory" where
  "LZ4_memcpy_using_offset m dstPtr srcPtr dstEnd offset =
     (if offset = 1 then copy_loop m dstPtr dstEnd (replicate 8 (cells m srcPtr))
      else if offset = 2 then
        (let a = peek_block m srcPtr 2; v4 = a @ a in copy_loop m dstPtr dstEnd (v4 @ v4))
      else if offset = 4 then
        (let a = peek_block m srcPtr 4 in copy_loop m dstPtr dstEnd (a @ a))
      else LZ4_memcpy_using_offset_base m dstPtr srcPtr dstEnd offset)"

subsection \<open>Variable-length fields\<close>

text \<open>Modelled from the spec: \<^verbatim>\<open>read_variable_length\<close> is declared in lz4defs.h. Section
  4.3 of the specification: read one byte at a time, add each to a running sum, stop
  after the first byte that is not \<open>0xFF\<close>; with the checks requested, fail when the
  cursor reaches the limit, before the first byte (\<open>initial_error\<close>) or after a byte
  (\<open>loop_error\<close>). The arguments are those of the calls at lines 233, 313, 430 and
  540: the cursor, the limit, \<open>loop_check\<close>, \<open>initial_check\<close>. The result is the sum,
  the advanced cursor and the error code; the sum carries no width, since the
  specification gives none.\<close>

function rvl_loop :: "byte list \<Rightarrow> int \<Rightarrow> int \<Rightarrow> bool \<Rightarrow> int \<Rightarrow> (int \<times> int \<times> variable_length_error) option" where
  "rvl_loop src i lencheck loop_check acc =
     (case src_byte src i of
        None \<Rightarrow> None
      | Some s \<Rightarrow>
          (let i' = i + 1; acc' = acc + uint s in
           if loop_check \<and> i' \<ge> lencheck then Some (acc', i', loop_error)
           else if s = 255 then rvl_loop src i' lencheck loop_check acc'
           else Some (acc', i', ok)))"
  by pat_completeness auto
termination
  by (relation "measure (\<lambda>(src, i, lencheck, loop_check, acc). nat (int (length src) - i))")
    (auto simp: src_byte_def split: if_splits)

declare rvl_loop.simps [simp del]

definition read_variable_length :: "byte list \<Rightarrow> int \<Rightarrow> int \<Rightarrow> bool \<Rightarrow> bool \<Rightarrow> (int \<times> int \<times> variable_length_error) option" where
  "read_variable_length src i lencheck loop_check initial_check =
     (if initial_check \<and> i \<ge> lencheck then Some (0, i, initial_error)
      else rvl_loop src i lencheck loop_check 0)"

subsection \<open>Parameters and state of the generic decoder\<close>

text \<open>The arguments of \<^verbatim>\<open>LZ4_decompress_generic\<close> (lines 150--171). \<open>lowPrefix\<close> is relative
  to \<open>dst\<close>. \<open>dictStart\<close> is not used by the body and is left out. \<open>src_addr\<close> and
  \<open>dst_addr\<close> are the machine addresses of \<open>src\<close> and \<open>dst\<close>; \<open>fast_dec_loop\<close> is the
  build-time switch \<^verbatim>\<open>LZ4_FAST_DEC_LOOP\<close> (lines 53--64).\<close>

record params =
  srcSize :: "32 word"
  outputSize :: "32 word"
  endOnInput :: endCondition_directive
  partialDecoding :: earlyEnd_directive
  dict :: dict_directive
  lowPrefix :: int
  dictSize :: nat
  src_addr :: int
  dst_addr :: int
  fast_dec_loop :: bool

record dstate =
  ip :: int
  op :: int
  mem :: memory

text \<open>How a pass through the loop body ends: at the \<^verbatim>\<open>continue\<close> or the end of the body,
  at a \<^verbatim>\<open>break\<close>, at \<^verbatim>\<open>goto _output_error\<close>, or with a read outside the input.\<close>

datatype ctl = Continue dstate | Break dstate | OutputError dstate | Fault dstate

datatype fctl = FastContinue dstate | Safe ctl

primrec ctl_state :: "ctl \<Rightarrow> dstate" where
  "ctl_state (Continue st) = st"
| "ctl_state (Break st) = st"
| "ctl_state (OutputError st) = st"
| "ctl_state (Fault st) = st"

primrec fctl_state :: "fctl \<Rightarrow> dstate" where
  "fctl_state (FastContinue st) = st"
| "fctl_state (Safe c) = ctl_state c"

definition iend :: "params \<Rightarrow> int" where
  "iend p = sint (srcSize p)"

definition oend :: "params \<Rightarrow> int" where
  "oend p = sint (outputSize p)"

text \<open>The directives used as conditions (\<^verbatim>\<open>if (endOnInput)\<close>, \<^verbatim>\<open>if (partialDecoding)\<close>).\<close>

definition on_input :: "params \<Rightarrow> bool" where
  "on_input p = (endOnInput p \<noteq> endOnOutputSize)"

definition partial :: "params \<Rightarrow> bool" where
  "partial p = (partialDecoding p \<noteq> decode_full_block)"

text \<open>Lines 180--187.\<close>

definition safeDecode :: "params \<Rightarrow> bool" where
  "safeDecode p = (endOnInput p = endOnInputSize)"

definition checkOffset :: "params \<Rightarrow> bool" where
  "checkOffset p = (safeDecode p \<and> int (dictSize p) < 64 * KB)"

definition shortiend :: "params \<Rightarrow> int" where
  "shortiend p = iend p - (if on_input p then 14 else 8) - 2"

definition shortoend :: "params \<Rightarrow> int" where
  "shortoend p = oend p - (if on_input p then 14 else 8) - 18"

subsection \<open>The main loop\<close>

text \<open>The match copy of partial decoding (lines 569--583), entered when
  \<open>cpy > oend - MATCH_SAFEGUARD_DISTANCE\<close>.\<close>

definition partial_match_copy :: "params \<Rightarrow> dstate \<Rightarrow> int \<Rightarrow> int \<Rightarrow> ctl" where
  "partial_match_copy p st match len =
     (let mlen = min len (size_t_of (oend p - op st));
          matchEnd = match + mlen;
          copyEnd = op st + mlen;
          m' = (if matchEnd > op st then byte_loop (mem st) (op st) match copyEnd
                else memcpy (mem st) (op st) match (nat mlen));
          st' = st\<lparr>op := copyEnd, mem := m'\<rparr>
      in if copyEnd = oend p then Break st' else Continue st')"

text \<open>The end of a match copy that comes close to the end of the output (lines
  602--618); \<open>m1\<close>, \<open>op1\<close>, \<open>match1\<close> are the memory and the pointers after the first
  eight bytes.\<close>

definition match_near_end :: "params \<Rightarrow> dstate \<Rightarrow> memory \<Rightarrow> int \<Rightarrow> int \<Rightarrow> int \<Rightarrow> ctl" where
  "match_near_end p st m1 op1 match1 cpy =
     (let oCopyLimit = oend p - (WILDCOPYLENGTH - 1) in
      if cpy > oend p - LASTLITERALS then OutputError (st\<lparr>op := op1, mem := m1\<rparr>)
      else if op1 < oCopyLimit then
        Continue (st\<lparr>op := cpy,
                     mem := byte_loop (LZ4_wildCopy8 m1 op1 match1 oCopyLimit) oCopyLimit
                              (match1 + (oCopyLimit - op1)) cpy\<rparr>)
      else Continue (st\<lparr>op := cpy, mem := byte_loop m1 op1 match1 cpy\<rparr>))"

text \<open>The match copy of lines 586--624.\<close>

definition full_match_copy :: "params \<Rightarrow> dstate \<Rightarrow> int \<Rightarrow> int \<Rightarrow> int \<Rightarrow> ctl" where
  "full_match_copy p st offset match len =
     (case first8 (mem st) (op st) match offset of
        (m1, match1) \<Rightarrow>
          (let cpy = op st + len; op1 = op st + 8 in
           if cpy > oend p - MATCH_SAFEGUARD_DISTANCE then match_near_end p st m1 op1 match1 cpy
           else
             (let m2 = memcpy m1 op1 match1 8 in
              Continue (st\<lparr>op := cpy,
                           mem := (if len > 16 then LZ4_wildCopy8 m2 (op1 + 8) (match1 + 8) cpy
                                   else m2)\<rparr>))))"

text \<open>From the label \<^verbatim>\<open>safe_match_copy\<close> to the end of the loop body (lines 559--625).\<close>

definition safe_match_copy :: "params \<Rightarrow> dstate \<Rightarrow> int \<Rightarrow> int \<Rightarrow> int \<Rightarrow> ctl" where
  "safe_match_copy p st offset match len =
     (if partial p \<and> op st + len > oend p - MATCH_SAFEGUARD_DISTANCE
      then partial_match_copy p st match len
      else full_match_copy p st offset match len)"

text \<open>The match length (lines 536--553).\<close>

definition match_length :: "params \<Rightarrow> byte list \<Rightarrow> dstate \<Rightarrow> int \<Rightarrow> int \<Rightarrow> int \<Rightarrow> ctl" where
  "match_length p src st offset match len =
     (if len = ML_MASK then
        (case read_variable_length src (ip st) (iend p - LASTLITERALS + 1) (on_input p) False of
           None \<Rightarrow> Fault st
         | Some (n, i', err) \<Rightarrow>
             if err \<noteq> ok then OutputError (st\<lparr>ip := i'\<rparr>)
             else if safeDecode p \<and> uptr_wraps (dst_addr p) (op st) (len + n)
               then OutputError (st\<lparr>ip := i'\<rparr>)
             else safe_match_copy p (st\<lparr>ip := i'\<rparr>) offset match (len + n + MINMATCH))
      else safe_match_copy p st offset match (len + MINMATCH))"

text \<open>The label \<^verbatim>\<open>_copy_match\<close> (lines 530--534): the offset check.\<close>

definition copy_match :: "params \<Rightarrow> byte list \<Rightarrow> dstate \<Rightarrow> int \<Rightarrow> int \<Rightarrow> int \<Rightarrow> ctl" where
  "copy_match p src st offset match len =
     (if checkOffset p \<and> match + int (dictSize p) < lowPrefix p then OutputError st
      else match_length p src st offset match len)"

text \<open>Lines 522--528: the offset and the match length seed.\<close>

definition get_offset :: "params \<Rightarrow> byte list \<Rightarrow> dstate \<Rightarrow> int \<Rightarrow> ctl" where
  "get_offset p src st token =
     (case LZ4_readLE16 src (ip st) of
        None \<Rightarrow> Fault st
      | Some offset \<Rightarrow>
          copy_match p src (st\<lparr>ip := ip st + 2\<rparr>) offset (op st - offset) (token AND ML_MASK))"

text \<open>The literal copy that may not overrun (lines 470--514), after the clamp of partial
  decoding: \<open>len\<close> and \<open>cpy\<close> are the values of \<^verbatim>\<open>length\<close> and \<^verbatim>\<open>cpy\<close> at line 470.\<close>

definition literal_tail :: "params \<Rightarrow> byte list \<Rightarrow> dstate \<Rightarrow> int \<Rightarrow> int \<Rightarrow> int \<Rightarrow> ctl" where
  "literal_tail p src st token len cpy =
     (if (if partial p then on_input p \<and> ip st + len > iend p
          else (\<not> on_input p \<and> cpy \<noteq> oend p)
            \<or> (on_input p \<and> (ip st + len \<noteq> iend p \<or> cpy > oend p)))
      then OutputError st
      else
        (case memcpy_in src (mem st) (op st) (ip st) (nat len) of
           None \<Rightarrow> Fault st
         | Some m' \<Rightarrow>
             if \<not> partial p \<or> cpy = oend p \<or> ip st + len \<ge> iend p - 2
             then Break (st\<lparr>ip := ip st + len, op := op st + len, mem := m'\<rparr>)
             else get_offset p src (st\<lparr>ip := ip st + len, op := op st + len, mem := m'\<rparr>) token))"

text \<open>The literal copy by \<^verbatim>\<open>LZ4_wildCopy8\<close> (lines 516--519), followed by the match.\<close>

definition literal_wild :: "params \<Rightarrow> byte list \<Rightarrow> dstate \<Rightarrow> int \<Rightarrow> int \<Rightarrow> int \<Rightarrow> ctl" where
  "literal_wild p src st token len cpy =
     (case LZ4_wildCopy8_in src (mem st) (op st) (ip st) cpy of
        None \<Rightarrow> Fault st
      | Some m' \<Rightarrow> get_offset p src (st\<lparr>ip := ip st + len, op := cpy, mem := m'\<rparr>) token)"

text \<open>From the label \<^verbatim>\<open>safe_literal_copy\<close> (lines 453--520), followed by the rest of the
  body when the loop is not left.\<close>

definition safe_literal_copy :: "params \<Rightarrow> byte list \<Rightarrow> dstate \<Rightarrow> int \<Rightarrow> int \<Rightarrow> int \<Rightarrow> ctl" where
  "safe_literal_copy p src st token len cpy =
     (if (on_input p \<and> (cpy > oend p - MFLIMIT \<or> ip st + len > iend p - (2 + 1 + LASTLITERALS)))
         \<or> (\<not> on_input p \<and> cpy > oend p - WILDCOPYLENGTH) then
        (if partial p \<and> cpy > oend p
         then literal_tail p src st token (size_t_of (oend p - op st)) (oend p)
         else literal_tail p src st token len cpy)
      else literal_wild p src st token len cpy)"

text \<open>Lines 425--451: the literal length, then the literal copy.\<close>

definition literal_length :: "params \<Rightarrow> byte list \<Rightarrow> dstate \<Rightarrow> int \<Rightarrow> int \<Rightarrow> ctl" where
  "literal_length p src st token len =
     (if len = RUN_MASK then
        (case read_variable_length src (ip st) (iend p - RUN_MASK) (on_input p) (on_input p) of
           None \<Rightarrow> Fault st
         | Some (n, i', err) \<Rightarrow>
             if err = initial_error then OutputError (st\<lparr>ip := i'\<rparr>)
             else if safeDecode p \<and> uptr_wraps (dst_addr p) (op st) (len + n)
               then OutputError (st\<lparr>ip := i'\<rparr>)
             else if safeDecode p \<and> uptr_wraps (src_addr p) i' (len + n)
               then OutputError (st\<lparr>ip := i'\<rparr>)
             else safe_literal_copy p src (st\<lparr>ip := i'\<rparr>) token (len + n) (op st + (len + n)))
      else safe_literal_copy p src st token len (op st + len))"

text \<open>The second stage of the shortcut (lines 398--422).\<close>

definition shortcut_match :: "params \<Rightarrow> byte list \<Rightarrow> dstate \<Rightarrow> int \<Rightarrow> ctl" where
  "shortcut_match p src st token =
     (case LZ4_readLE16 src (ip st) of
        None \<Rightarrow> Fault st
      | Some offset \<Rightarrow>
          (let len = token AND ML_MASK; match = op st - offset in
           if len \<noteq> ML_MASK \<and> offset \<ge> 8 \<and> (dict p = withPrefix64k \<or> match \<ge> lowPrefix p) then
             Continue (st\<lparr>ip := ip st + 2, op := op st + len + MINMATCH,
                          mem := memcpy (memcpy (memcpy (mem st) (op st) match 8)
                                           (op st + 8) (match + 8) 8)
                                   (op st + 16) (match + 16) 2\<rparr>)
           else copy_match p src (st\<lparr>ip := ip st + 2\<rparr>) offset match len))"

text \<open>Lines 388--422: the two-stage shortcut, entered with \<open>ip\<close> behind the token.\<close>

definition shortcut :: "params \<Rightarrow> byte list \<Rightarrow> dstate \<Rightarrow> int \<Rightarrow> int \<Rightarrow> ctl" where
  "shortcut p src st token len =
     (case memcpy_in src (mem st) (op st) (ip st) (if on_input p then 16 else 8) of
        None \<Rightarrow> Fault st
      | Some m' \<Rightarrow> shortcut_match p src (st\<lparr>ip := ip st + len, op := op st + len, mem := m'\<rparr>) token)"

text \<open>The condition of lines 381--387, with \<open>i\<close> the cursor behind the token.\<close>

definition shortcut_cond :: "params \<Rightarrow> int \<Rightarrow> int \<Rightarrow> int \<Rightarrow> bool" where
  "shortcut_cond p len i opos =
     ((if on_input p then len \<noteq> RUN_MASK else len \<le> 8)
      \<and> (if on_input p then i < shortiend p else True) \<and> opos \<le> shortoend p)"

text \<open>One pass through the body of the main loop (lines 359--625).\<close>

definition safe_iter :: "params \<Rightarrow> byte list \<Rightarrow> dstate \<Rightarrow> ctl" where
  "safe_iter p src st =
     (case src_byte src (ip st) of
        None \<Rightarrow> Fault st
      | Some t \<Rightarrow>
          (let token = uint t; len = drop_bit ML_BITS token in
           if shortcut_cond p len (ip st + 1) (op st)
           then shortcut p src (st\<lparr>ip := ip st + 1\<rparr>) token len
           else literal_length p src (st\<lparr>ip := ip st + 1\<rparr>) token len))"

subsection \<open>The fast loop\<close>

text \<open>Lines 344--354: the match copy inside the block.\<close>

definition fast_match_copy :: "params \<Rightarrow> dstate \<Rightarrow> int \<Rightarrow> int \<Rightarrow> int \<Rightarrow> fctl" where
  "fast_match_copy p st offset match len =
     (let cpy = op st + len in
      FastContinue (st\<lparr>op := cpy,
                      mem := (if offset < 16 then LZ4_memcpy_using_offset (mem st) (op st) match cpy offset
                              else LZ4_wildCopy32 (mem st) (op st) match cpy)\<rparr>))"

text \<open>Lines 322--342, with \<open>len\<close> the match length after \<^verbatim>\<open>length += MINMATCH\<close>; \<open>short\<close>
  tells that the length had no extension bytes (the branch of line 326).\<close>

definition fast_match_dispatch :: "params \<Rightarrow> dstate \<Rightarrow> bool \<Rightarrow> int \<Rightarrow> int \<Rightarrow> int \<Rightarrow> fctl" where
  "fast_match_dispatch p st short offset match len =
     (if op st + len \<ge> oend p - FASTLOOP_SAFE_DISTANCE then Safe (safe_match_copy p st offset match len)
      else if short \<and> match \<ge> lowPrefix p \<and> offset \<ge> 8 then
        FastContinue (st\<lparr>op := op st + len,
                        mem := memcpy (memcpy (memcpy (mem st) (op st) match 8)
                                         (op st + 8) (match + 8) 8)
                                 (op st + 16) (match + 16) 2\<rparr>)
      else fast_match_copy p st offset match len)"

text \<open>Lines 303--331: the offset check and the match length.\<close>

definition fast_match_length :: "params \<Rightarrow> byte list \<Rightarrow> dstate \<Rightarrow> int \<Rightarrow> int \<Rightarrow> int \<Rightarrow> fctl" where
  "fast_match_length p src st offset match len =
     (if checkOffset p \<and> match + int (dictSize p) < lowPrefix p then Safe (OutputError st)
      else if len = ML_MASK then
        (case read_variable_length src (ip st) (iend p - LASTLITERALS + 1) (on_input p) False of
           None \<Rightarrow> Safe (Fault st)
         | Some (n, i', err) \<Rightarrow>
             if err \<noteq> ok then Safe (OutputError (st\<lparr>ip := i'\<rparr>))
             else if safeDecode p \<and> uptr_wraps (dst_addr p) (op st) (len + n)
               then Safe (OutputError (st\<lparr>ip := i'\<rparr>))
             else fast_match_dispatch p (st\<lparr>ip := i'\<rparr>) False offset match (len + n + MINMATCH))
      else fast_match_dispatch p st True offset match (len + MINMATCH))"

text \<open>Lines 298--304: the offset and the match length seed.\<close>

definition fast_get_offset :: "params \<Rightarrow> byte list \<Rightarrow> dstate \<Rightarrow> int \<Rightarrow> fctl" where
  "fast_get_offset p src st token =
     (case LZ4_readLE16 src (ip st) of
        None \<Rightarrow> Safe (Fault st)
      | Some offset \<Rightarrow>
          fast_match_length p src (st\<lparr>ip := ip st + 2\<rparr>) offset (op st - offset) (token AND ML_MASK))"

text \<open>Lines 252--270: the copy of a literal run whose length had extension bytes.\<close>

definition fast_long_literals :: "params \<Rightarrow> byte list \<Rightarrow> dstate \<Rightarrow> int \<Rightarrow> int \<Rightarrow> fctl" where
  "fast_long_literals p src st token len =
     (let cpy = op st + len in
      if on_input p then
        (if cpy > oend p - 32 \<or> ip st + len > iend p - 32
         then Safe (safe_literal_copy p src st token len cpy)
         else
           (case LZ4_wildCopy32_in src (mem st) (op st) (ip st) cpy of
              None \<Rightarrow> Safe (Fault st)
            | Some m' \<Rightarrow> fast_get_offset p src (st\<lparr>ip := ip st + len, op := cpy, mem := m'\<rparr>) token))
      else
        (if cpy > oend p - 8 then Safe (safe_literal_copy p src st token len cpy)
         else
           (case LZ4_wildCopy8_in src (mem st) (op st) (ip st) cpy of
              None \<Rightarrow> Safe (Fault st)
            | Some m' \<Rightarrow> fast_get_offset p src (st\<lparr>ip := ip st + len, op := cpy, mem := m'\<rparr>) token)))"

text \<open>Lines 271--296: the copy of a literal run of at most 14 bytes.\<close>

definition fast_short_literals :: "params \<Rightarrow> byte list \<Rightarrow> dstate \<Rightarrow> int \<Rightarrow> int \<Rightarrow> fctl" where
  "fast_short_literals p src st token len =
     (let cpy = op st + len in
      if on_input p then
        (if ip st > iend p - (16 + 1) then Safe (safe_literal_copy p src st token len cpy)
         else
           (case memcpy_in src (mem st) (op st) (ip st) 16 of
              None \<Rightarrow> Safe (Fault st)
            | Some m' \<Rightarrow> fast_get_offset p src (st\<lparr>ip := ip st + len, op := cpy, mem := m'\<rparr>) token))
      else
        (case memcpy_in src (mem st) (op st) (ip st) 8 of
           None \<Rightarrow> Safe (Fault st)
         | Some m1 \<Rightarrow>
             (case (if len > 8 then memcpy_in src m1 (op st + 8) (ip st + 8) 8 else Some m1) of
                None \<Rightarrow> Safe (Fault st)
              | Some m' \<Rightarrow> fast_get_offset p src (st\<lparr>ip := ip st + len, op := cpy, mem := m'\<rparr>) token)))"

text \<open>Lines 229--250: the literal length with its extension bytes.\<close>

definition fast_literal_length :: "params \<Rightarrow> byte list \<Rightarrow> dstate \<Rightarrow> int \<Rightarrow> int \<Rightarrow> fctl" where
  "fast_literal_length p src st token len =
     (case read_variable_length src (ip st) (iend p - RUN_MASK) (on_input p) (on_input p) of
        None \<Rightarrow> Safe (Fault st)
      | Some (n, i', err) \<Rightarrow>
          if err = initial_error then Safe (OutputError (st\<lparr>ip := i'\<rparr>))
          else if safeDecode p \<and> uptr_wraps (dst_addr p) (op st) (len + n)
            then Safe (OutputError (st\<lparr>ip := i'\<rparr>))
          else if safeDecode p \<and> uptr_wraps (src_addr p) i' (len + n)
            then Safe (OutputError (st\<lparr>ip := i'\<rparr>))
          else fast_long_literals p src (st\<lparr>ip := i'\<rparr>) token (len + n))"

text \<open>One pass through the body of the fast loop (lines 218--355). \<open>Safe c\<close> is a jump
  into the body of the main loop, which ended as \<open>c\<close>.\<close>

definition fast_iter :: "params \<Rightarrow> byte list \<Rightarrow> dstate \<Rightarrow> fctl" where
  "fast_iter p src st =
     (case src_byte src (ip st) of
        None \<Rightarrow> Safe (Fault st)
      | Some t \<Rightarrow>
          (let token = uint t; len = drop_bit ML_BITS token in
           if len = RUN_MASK then fast_literal_length p src (st\<lparr>ip := ip st + 1\<rparr>) token len
           else fast_short_literals p src (st\<lparr>ip := ip st + 1\<rparr>) token len))"

subsection \<open>The input cursor only advances, inside the input\<close>

definition ip_adv :: "byte list \<Rightarrow> dstate \<Rightarrow> dstate \<Rightarrow> bool" where
  "ip_adv src st st' = (ip st \<le> ip st' \<and> (ip st \<le> int (length src) \<longrightarrow> ip st' \<le> int (length src)))"

lemma ip_adv_refl: "ip_adv src st st"
  by (simp add: ip_adv_def)

lemma ip_adv_trans: "ip_adv src a b \<Longrightarrow> ip_adv src b c \<Longrightarrow> ip_adv src a c"
  by (auto simp: ip_adv_def)

lemma ip_adv_step:
  "0 \<le> n \<Longrightarrow> ip st + n \<le> int (length src) \<Longrightarrow> ip st1 = ip st + n \<Longrightarrow> ip_adv src st st1"
  by (simp add: ip_adv_def)

lemma rvl_loop_mono:
  "rvl_loop src i lc chk acc = Some (n, i', err) \<Longrightarrow> acc \<le> n \<and> i < i' \<and> i' \<le> int (length src)"
proof (induction src i lc chk acc rule: rvl_loop.induct)
  case (1 src i lencheck loop_check acc)
  show ?case
  proof (cases "src_byte src i")
    case None
    with "1.prems" show ?thesis by (simp add: rvl_loop.simps[of src i])
  next
    case (Some s)
    then have b: "0 \<le> i" "i < int (length src)" by (auto simp: src_byte_def split: if_splits)
    have u: "0 \<le> uint s" by simp
    show ?thesis
    proof (cases "loop_check \<and> i + 1 \<ge> lencheck")
      case True
      with "1.prems" Some b show ?thesis by (auto simp: rvl_loop.simps[of src i] Let_def)
    next
      case False
      show ?thesis
      proof (cases "s = 255")
        case True
        with "1.prems" Some False have "rvl_loop src (i + 1) lencheck loop_check (acc + uint s) = Some (n, i', err)"
          by (auto simp: rvl_loop.simps[of src i] Let_def)
        from "1.IH"[OF Some refl refl False True this] u show ?thesis
          by linarith
      next
        case F2: False
        with "1.prems" Some False b show ?thesis by (auto simp: rvl_loop.simps[of src i] Let_def)
      qed
    qed
  qed
qed

lemma read_variable_length_mono:
  "read_variable_length src i lc chk ichk = Some (n, i', err) \<Longrightarrow>
     0 \<le> n \<and> i \<le> i' \<and> (i \<le> int (length src) \<longrightarrow> i' \<le> int (length src))"
  by (auto simp: read_variable_length_def split: if_splits dest: rvl_loop_mono)

lemma ip_adv_rvl:
  "read_variable_length src (ip st) lc chk ichk = Some (n, i', err) \<Longrightarrow> ip_adv src st (st\<lparr>ip := i'\<rparr>)"
  by (auto simp: ip_adv_def dest: read_variable_length_mono)

lemma memcpy_in_eq_Some:
  "(memcpy_in src m d s n = Some m') =
     (0 \<le> s \<and> s + int n \<le> int (length src) \<and> m' = poke_block m d (take n (drop (nat s) src)))"
  by (auto simp: memcpy_in_def src_bytes_def)

lemma memcpy_in_Some:
  "memcpy_in src m d s n = Some m' \<Longrightarrow> 0 \<le> s \<and> s + int n \<le> int (length src)"
  by (simp add: memcpy_in_eq_Some)

lemma LZ4_readLE16_Some:
  "LZ4_readLE16 src i = Some off \<Longrightarrow> 0 \<le> i \<and> i + 2 \<le> int (length src) \<and> 0 \<le> off"
  by (auto simp: LZ4_readLE16_def src_bytes_def split: if_splits list.splits)

lemma LZ4_wildCopy8_in_Some:
  "LZ4_wildCopy8_in src m d s e = Some m' \<Longrightarrow>
     0 \<le> s \<and> s + 8 \<le> int (length src) \<and> s + (e - d) \<le> int (length src)"
proof (induction src m d s e rule: LZ4_wildCopy8_in.induct)
  case (1 src m d s e)
  from "1.prems" obtain m1 where m1: "memcpy_in src m d s 8 = Some m1"
    by (auto simp: LZ4_wildCopy8_in.simps[of src m d s e] split: option.splits)
  note b = memcpy_in_Some[OF m1]
  show ?case
  proof (cases "d + 8 < e")
    case True
    with "1.prems" m1 have "LZ4_wildCopy8_in src m1 (d + 8) (s + 8) e = Some m'"
      by (simp add: LZ4_wildCopy8_in.simps[of src m d s e])
    from "1.IH"[OF m1 True this] b show ?thesis by simp
  next
    case False
    with b show ?thesis by simp
  qed
qed

lemma LZ4_wildCopy32_in_Some:
  "LZ4_wildCopy32_in src m d s e = Some m' \<Longrightarrow>
     0 \<le> s \<and> s + 32 \<le> int (length src) \<and> s + (e - d) \<le> int (length src)"
proof (induction src m d s e rule: LZ4_wildCopy32_in.induct)
  case (1 src m d s e)
  from "1.prems" obtain m1 where m1: "memcpy_in src m d s 16 = Some m1"
    by (auto simp: LZ4_wildCopy32_in.simps[of src m d s e] split: option.splits)
  from "1.prems" m1 obtain m2 where m2: "memcpy_in src m1 (d + 16) (s + 16) 16 = Some m2"
    by (auto simp: LZ4_wildCopy32_in.simps[of src m d s e] split: option.splits)
  note b = memcpy_in_Some[OF m1] memcpy_in_Some[OF m2]
  show ?case
  proof (cases "d + 32 < e")
    case True
    with "1.prems" m1 m2 have "LZ4_wildCopy32_in src m2 (d + 32) (s + 32) e = Some m'"
      by (simp add: LZ4_wildCopy32_in.simps[of src m d s e])
    from "1.IH"[OF m1 m2 True this] b show ?thesis by simp
  next
    case False
    with b show ?thesis by simp
  qed
qed

lemma size_t_of_nonneg: "0 \<le> size_t_of x"
  by (simp add: size_t_of_def)

lemma partial_match_copy_ip: "ip (ctl_state (partial_match_copy p st match len)) = ip st"
  by (simp add: partial_match_copy_def Let_def)

lemma match_near_end_ip: "ip (ctl_state (match_near_end p st m1 op1 match1 cpy)) = ip st"
  by (simp add: match_near_end_def Let_def)

lemma full_match_copy_ip: "ip (ctl_state (full_match_copy p st offset match len)) = ip st"
  by (simp add: full_match_copy_def Let_def match_near_end_ip split: prod.split)

lemma safe_match_copy_ip: "ip (ctl_state (safe_match_copy p st offset match len)) = ip st"
  by (simp add: safe_match_copy_def partial_match_copy_ip full_match_copy_ip)

lemma safe_match_copy_adv:
  "ip_adv src st st1 \<Longrightarrow> ip_adv src st (ctl_state (safe_match_copy p st1 offset match len))"
  by (simp add: ip_adv_def safe_match_copy_ip)

lemma match_length_adv: "ip_adv src st (ctl_state (match_length p src st offset match len))"
  by (auto simp: match_length_def ip_adv_refl split: option.split
      intro!: safe_match_copy_adv ip_adv_rvl)

lemma copy_match_adv: "ip_adv src st (ctl_state (copy_match p src st offset match len))"
  by (simp add: copy_match_def match_length_adv ip_adv_refl)

lemma ip_adv_copy_match:
  "ip_adv src st st1 \<Longrightarrow> ip_adv src st (ctl_state (copy_match p src st1 offset match len))"
  by (rule ip_adv_trans[OF _ copy_match_adv])

lemma get_offset_adv: "ip_adv src st (ctl_state (get_offset p src st token))"
  by (auto simp: get_offset_def ip_adv_refl split: option.split
      dest!: LZ4_readLE16_Some intro!: ip_adv_copy_match ip_adv_step[where n=2])

lemma ip_adv_get_offset:
  "ip_adv src st st1 \<Longrightarrow> ip_adv src st (ctl_state (get_offset p src st1 token))"
  by (rule ip_adv_trans[OF _ get_offset_adv])

lemma literal_tail_adv:
  "0 \<le> len \<Longrightarrow> ip_adv src st (ctl_state (literal_tail p src st token len cpy))"
  by (auto simp: literal_tail_def ip_adv_refl split: option.split
      dest!: memcpy_in_Some intro!: ip_adv_get_offset ip_adv_step[where n=len])

lemma literal_wild_adv:
  "0 \<le> len \<Longrightarrow> cpy = op st + len \<Longrightarrow> ip_adv src st (ctl_state (literal_wild p src st token len cpy))"
  by (auto simp: literal_wild_def ip_adv_refl split: option.split
      dest!: LZ4_wildCopy8_in_Some intro!: ip_adv_get_offset ip_adv_step[where n=len])

lemma safe_literal_copy_adv:
  "0 \<le> len \<Longrightarrow> cpy = op st + len \<Longrightarrow>
     ip_adv src st (ctl_state (safe_literal_copy p src st token len cpy))"
  by (simp add: safe_literal_copy_def literal_tail_adv literal_wild_adv size_t_of_nonneg)

lemma ip_adv_safe_literal_copy:
  "ip_adv src st st1 \<Longrightarrow> 0 \<le> len \<Longrightarrow> cpy = op st1 + len \<Longrightarrow>
     ip_adv src st (ctl_state (safe_literal_copy p src st1 token len cpy))"
  by (rule ip_adv_trans[OF _ safe_literal_copy_adv])

lemma literal_length_adv:
  "0 \<le> len \<Longrightarrow> ip_adv src st (ctl_state (literal_length p src st token len))"
  by (auto simp: literal_length_def ip_adv_refl safe_literal_copy_adv split: option.split
      intro!: ip_adv_safe_literal_copy ip_adv_rvl dest: read_variable_length_mono)

lemma shortcut_match_adv: "ip_adv src st (ctl_state (shortcut_match p src st token))"
  by (auto simp: shortcut_match_def Let_def ip_adv_refl split: option.split
      dest!: LZ4_readLE16_Some intro!: ip_adv_copy_match ip_adv_step[where n=2])

lemma shortcut_adv:
  "0 \<le> len \<Longrightarrow> len \<le> (if on_input p then 16 else 8) \<Longrightarrow>
     ip_adv src st (ctl_state (shortcut p src st token len))"
  by (auto simp: shortcut_def ip_adv_refl split: option.split if_splits
      dest!: memcpy_in_Some intro!: ip_adv_trans[OF _ shortcut_match_adv] ip_adv_step[where n=len])

lemma token_seed_bounds: "0 \<le> drop_bit ML_BITS (uint (t :: byte)) \<and> drop_bit ML_BITS (uint t) \<le> 15"
proof -
  have a: "0 \<le> uint t" by simp
  have b: "uint t < 256" using uint_lt2p[of t] by simp
  from a b have "0 \<le> uint t div 16 \<and> uint t div 16 \<le> 15" by linarith
  then show ?thesis by (simp add: drop_bit_eq_div)
qed

lemma safe_iter_behind_token:
  assumes "src_byte src (ip st) = Some t"
  shows "ip_adv src (st\<lparr>ip := ip st + 1\<rparr>) (ctl_state (safe_iter p src st))"
proof -
  note tb = token_seed_bounds[of t]
  show ?thesis
  proof (cases "shortcut_cond p (drop_bit ML_BITS (uint t)) (ip st + 1) (op st)")
    case True
    then have "drop_bit ML_BITS (uint t) \<le> (if on_input p then 16 else 8)"
      using tb by (auto simp: shortcut_cond_def split: if_splits)
    from shortcut_adv[OF conjunct1[OF tb] this] assms True show ?thesis
      by (simp add: safe_iter_def Let_def)
  next
    case False
    from literal_length_adv[OF conjunct1[OF tb]] assms False show ?thesis
      by (simp add: safe_iter_def Let_def)
  qed
qed

lemma safe_iter_consumes:
  assumes "safe_iter p src st = Continue st'"
  shows "ip st < ip st' \<and> ip st' \<le> int (length src)"
proof (cases "src_byte src (ip st)")
  case None
  with assms show ?thesis by (simp add: safe_iter_def)
next
  case (Some t)
  then have "0 \<le> ip st \<and> ip st < int (length src)"
    by (auto simp: src_byte_def split: if_splits)
  with safe_iter_behind_token[OF Some, of p] assms show ?thesis
    by (simp add: ip_adv_def)
qed

subsection \<open>The loops and the entry points\<close>

text \<open>How the decoder leaves its loops: at \<^verbatim>\<open>end of decoding\<close> (after a \<^verbatim>\<open>break\<close>), at the
  label \<^verbatim>\<open>_output_error\<close>, or with a read outside the input.\<close>

datatype exit = Ended dstate | Errored dstate | Faulted dstate

primrec exit_state :: "exit \<Rightarrow> dstate" where
  "exit_state (Ended st) = st"
| "exit_state (Errored st) = st"
| "exit_state (Faulted st) = st"

text \<open>The main loop \<^verbatim>\<open>while (1)\<close> of lines 359--625.\<close>

function safe_loop :: "params \<Rightarrow> byte list \<Rightarrow> dstate \<Rightarrow> exit" where
  "safe_loop p src st =
     (case safe_iter p src st of
        Continue st' \<Rightarrow> safe_loop p src st'
      | Break st' \<Rightarrow> Ended st'
      | OutputError st' \<Rightarrow> Errored st'
      | Fault st' \<Rightarrow> Faulted st')"
  by pat_completeness auto
termination
  by (relation "measure (\<lambda>(p, src, st). nat (int (length src) - ip st))")
    (auto dest: safe_iter_consumes)

declare safe_loop.simps [simp del]

lemma fast_match_copy_ip: "ip (fctl_state (fast_match_copy p st offset match len)) = ip st"
  by (simp add: fast_match_copy_def Let_def)

lemma fast_match_dispatch_ip: "ip (fctl_state (fast_match_dispatch p st short offset match len)) = ip st"
  by (simp add: fast_match_dispatch_def fast_match_copy_ip safe_match_copy_ip)

lemma fast_match_dispatch_adv:
  "ip_adv src st st1 \<Longrightarrow> ip_adv src st (fctl_state (fast_match_dispatch p st1 short offset match len))"
  by (simp add: ip_adv_def fast_match_dispatch_ip)

lemma fast_match_length_adv: "ip_adv src st (fctl_state (fast_match_length p src st offset match len))"
  by (auto simp: fast_match_length_def ip_adv_refl split: option.split
      intro!: fast_match_dispatch_adv ip_adv_rvl)

lemma fast_get_offset_adv: "ip_adv src st (fctl_state (fast_get_offset p src st token))"
  by (auto simp: fast_get_offset_def ip_adv_refl split: option.split
      dest!: LZ4_readLE16_Some
      intro!: ip_adv_trans[OF _ fast_match_length_adv] ip_adv_step[where n=2])

lemma ip_adv_fast_get_offset:
  "ip_adv src st st1 \<Longrightarrow> ip_adv src st (fctl_state (fast_get_offset p src st1 token))"
  by (rule ip_adv_trans[OF _ fast_get_offset_adv])

lemma fast_long_literals_adv:
  "0 \<le> len \<Longrightarrow> ip_adv src st (fctl_state (fast_long_literals p src st token len))"
  by (auto simp: fast_long_literals_def Let_def ip_adv_refl safe_literal_copy_adv split: option.split
      dest!: LZ4_wildCopy8_in_Some LZ4_wildCopy32_in_Some
      intro!: ip_adv_fast_get_offset ip_adv_step[where n=len])

lemma fast_short_literals_adv:
  "0 \<le> len \<Longrightarrow> len \<le> 15 \<Longrightarrow> ip_adv src st (fctl_state (fast_short_literals p src st token len))"
  by (auto simp: fast_short_literals_def Let_def ip_adv_refl safe_literal_copy_adv split: option.split if_splits
      dest!: memcpy_in_Some
      intro!: ip_adv_fast_get_offset ip_adv_step[where n=len])

lemma fast_literal_length_adv:
  assumes "0 \<le> len"
  shows "ip_adv src st (fctl_state (fast_literal_length p src st token len))"
proof (cases "read_variable_length src (ip st) (iend p - RUN_MASK) (on_input p) (on_input p)")
  case None
  then show ?thesis by (simp add: fast_literal_length_def ip_adv_refl)
next
  case (Some r)
  obtain n i' err where r: "r = (n, i', err)" by (cases r) auto
  note a = ip_adv_rvl[OF Some[unfolded r]]
  from read_variable_length_mono[OF Some[unfolded r]] assms have "0 \<le> len + n" by simp
  from ip_adv_trans[OF a fast_long_literals_adv[OF this]] a Some r show ?thesis
    by (simp add: fast_literal_length_def)
qed

lemma fast_iter_behind_token:
  assumes "src_byte src (ip st) = Some t"
  shows "ip_adv src (st\<lparr>ip := ip st + 1\<rparr>) (fctl_state (fast_iter p src st))"
  using assms token_seed_bounds[of t]
  by (simp add: fast_iter_def Let_def fast_literal_length_adv fast_short_literals_adv)

lemma fast_iter_consumes:
  assumes "fctl_state (fast_iter p src st) = st'" "src_byte src (ip st) \<noteq> None"
  shows "ip st < ip st' \<and> ip st' \<le> int (length src)"
proof -
  from assms(2) obtain t where t: "src_byte src (ip st) = Some t" by auto
  then have "0 \<le> ip st \<and> ip st < int (length src)"
    by (auto simp: src_byte_def split: if_splits)
  with fast_iter_behind_token[OF t, of p] assms(1) show ?thesis
    by (simp add: ip_adv_def)
qed

lemma fast_iter_Fault: "src_byte src (ip st) = None \<Longrightarrow> fast_iter p src st = Safe (Fault st)"
  by (simp add: fast_iter_def)

text \<open>The fast loop \<^verbatim>\<open>while (1)\<close> of lines 218--355; it is left only by a jump into the
  body of the main loop, which then goes on from its next pass.\<close>

function fast_loop :: "params \<Rightarrow> byte list \<Rightarrow> dstate \<Rightarrow> exit" where
  "fast_loop p src st =
     (case fast_iter p src st of
        FastContinue st' \<Rightarrow> fast_loop p src st'
      | Safe (Continue st') \<Rightarrow> safe_loop p src st'
      | Safe (Break st') \<Rightarrow> Ended st'
      | Safe (OutputError st') \<Rightarrow> Errored st'
      | Safe (Fault st') \<Rightarrow> Faulted st')"
  by pat_completeness auto
termination
proof (relation "measure (\<lambda>(p, src, st). nat (int (length src) - ip st))")
  show "wf (measure (\<lambda>(p, src, st). nat (int (length src) - ip st)))" by simp
next
  fix p src st st'
  assume a: "fast_iter p src st = FastContinue st'"
  then have "src_byte src (ip st) \<noteq> None" using fast_iter_Fault[of src st p] by auto
  from fast_iter_consumes[OF _ this, of p st'] a
  show "((p, src, st'), p, src, st) \<in> measure (\<lambda>(p, src, st). nat (int (length src) - ip st))"
    by simp
qed

declare fast_loop.simps [simp del]

text \<open>Lines 211--216 and the two loops.\<close>

definition decode_loops :: "params \<Rightarrow> byte list \<Rightarrow> dstate \<Rightarrow> exit" where
  "decode_loops p src st =
     (if fast_dec_loop p \<and> \<not> (oend p - op st < FASTLOOP_SAFE_DISTANCE) then fast_loop p src st
      else safe_loop p src st)"

text \<open>What the function gives back: the \<^verbatim>\<open>int\<close> it returns, with the final state of the
  cursors and of the output memory, or a read outside the input.\<close>

datatype result = Return "32 word" dstate | ReadFault dstate

primrec result_state :: "result \<Rightarrow> dstate" where
  "result_state (Return r st) = st"
| "result_state (ReadFault st) = st"

text \<open>Lines 627--638.\<close>

definition end_of_decoding :: "params \<Rightarrow> exit \<Rightarrow> result" where
  "end_of_decoding p x =
     (case x of
        Ended st \<Rightarrow> Return (if on_input p then word_of_int (op st) else word_of_int (ip st)) st
      | Errored st \<Rightarrow> Return (word_of_int (- (ip st)) - 1) st
      | Faulted st \<Rightarrow> ReadFault st)"

text \<open>\<^verbatim>\<open>LZ4_decompress_generic\<close> (lines 150--639).\<close>

definition LZ4_decompress_generic :: "params \<Rightarrow> byte list \<Rightarrow> memory \<Rightarrow> result" where
  "LZ4_decompress_generic p src m =
     (let st = \<lparr>ip = 0, op = 0, mem = m\<rparr> in
      if on_input p \<and> outputSize p = 0 then
        (if srcSize p = 1 then
           (case src_byte src 0 of
              None \<Rightarrow> ReadFault st
            | Some b \<Rightarrow> Return (if b = 0 then 0 else - 1) st)
         else Return (- 1) st)
      else if \<not> on_input p \<and> outputSize p = 0 then
        (case src_byte src 0 of
           None \<Rightarrow> ReadFault st
         | Some b \<Rightarrow> Return (if b = 0 then 1 else - 1) st)
      else if on_input p \<and> srcSize p = 0 then Return (- 1) st
      else end_of_decoding p (decode_loops p src st))"

text \<open>The entry points (lines 641--656). The first three arguments are the build-time
  switch and the machine addresses of the two buffers; \<open>source\<close> is the readable input
  and \<open>dest\<close> the output memory before the call.\<close>

definition LZ4_decompress_safe ::
  "bool \<Rightarrow> int \<Rightarrow> int \<Rightarrow> byte list \<Rightarrow> memory \<Rightarrow> 32 word \<Rightarrow> 32 word \<Rightarrow> result" where
  "LZ4_decompress_safe fdl source_addr dest_addr source dest compressedSize maxDecompressedSize =
     LZ4_decompress_generic
       \<lparr>srcSize = compressedSize, outputSize = maxDecompressedSize,
        endOnInput = endOnInputSize, partialDecoding = decode_full_block, dict = noDict,
        lowPrefix = 0, dictSize = 0,
        src_addr = source_addr, dst_addr = dest_addr, fast_dec_loop = fdl\<rparr>
       source dest"

definition LZ4_decompress_fast ::
  "bool \<Rightarrow> int \<Rightarrow> int \<Rightarrow> byte list \<Rightarrow> memory \<Rightarrow> 32 word \<Rightarrow> result" where
  "LZ4_decompress_fast fdl source_addr dest_addr source dest originalSize =
     LZ4_decompress_generic
       \<lparr>srcSize = 0, outputSize = originalSize,
        endOnInput = endOnOutputSize, partialDecoding = decode_full_block, dict = withPrefix64k,
        lowPrefix = - (64 * KB), dictSize = 0,
        src_addr = source_addr, dst_addr = dest_addr, fast_dec_loop = fdl\<rparr>
       source dest"

section \<open>Sample inputs\<close>

text \<open>An output memory that holds zero everywhere and has not been stored to.\<close>

definition zero_mem :: memory where
  "zero_mem = \<lparr>cells = (\<lambda>_. 0), written = {}\<rparr>"

section \<open>Degenerate sizes\<close>

lemma sint_eq_length_1: "sint (w :: 32 word) = int (length src) \<Longrightarrow> (w = 1) = (length src = 1)"
proof
  assume "sint w = int (length src)" "w = 1"
  then show "length src = 1" by simp
next
  assume a: "sint w = int (length src)" "length src = 1"
  then have "sint w = sint (1 :: 32 word)" by simp
  then show "w = 1" by (rule signed_word_eqI)
qed

lemma length_1_hd: "length src = 1 \<Longrightarrow> src = [hd src]"
  by (cases src) auto

text \<open>Claim C9. With an output size of zero, the safe decoder (\<open>on_input\<close>, the size
  argument being the size of the input) returns 0 when the input is the single byte
  \<open>0x00\<close> and the error value \<open>-1\<close> otherwise; the fast decoder returns 1 when the first
  input byte is \<open>0x00\<close> and \<open>-1\<close> otherwise; and the safe decoder returns \<open>-1\<close> for every
  input of size zero. None of these returns moves a cursor or stores a byte.\<close>

theorem degenerate_sizes:
  "(on_input p \<and> outputSize p = 0 \<and> sint (srcSize p) = int (length src) \<longrightarrow>
      LZ4_decompress_generic p src m =
        Return (if src = [0] then 0 else - 1) \<lparr>ip = 0, op = 0, mem = m\<rparr>)
   \<and> (\<not> on_input p \<and> outputSize p = 0 \<and> src \<noteq> [] \<longrightarrow>
      LZ4_decompress_generic p src m =
        Return (if hd src = 0 then 1 else - 1) \<lparr>ip = 0, op = 0, mem = m\<rparr>)
   \<and> (on_input p \<and> srcSize p = 0 \<longrightarrow>
      (\<exists>st. LZ4_decompress_generic p src m = Return (- 1) st))"
proof (intro conjI impI)
  assume a: "on_input p \<and> outputSize p = 0 \<and> sint (srcSize p) = int (length src)"
  then have s1: "(srcSize p = 1) = (length src = 1)" by (simp add: sint_eq_length_1)
  show "LZ4_decompress_generic p src m =
        Return (if src = [0] then 0 else - 1) \<lparr>ip = 0, op = 0, mem = m\<rparr>"
  proof (cases "length src = 1")
    case True
    then obtain b where "src = [b]" using length_1_hd by blast
    with a s1 show ?thesis by (simp add: LZ4_decompress_generic_def src_byte_def)
  next
    case False
    then have "src \<noteq> [0]" by auto
    with a s1 False show ?thesis by (simp add: LZ4_decompress_generic_def)
  qed
next
  assume a: "\<not> on_input p \<and> outputSize p = 0 \<and> src \<noteq> []"
  then obtain b bs where "src = b # bs" by (cases src) auto
  with a show "LZ4_decompress_generic p src m =
        Return (if hd src = 0 then 1 else - 1) \<lparr>ip = 0, op = 0, mem = m\<rparr>"
    by (simp add: LZ4_decompress_generic_def src_byte_def)
next
  assume "on_input p \<and> srcSize p = 0"
  then show "\<exists>st. LZ4_decompress_generic p src m = Return (- 1) st"
    by (auto simp: LZ4_decompress_generic_def Let_def)
qed

theorem degenerate_sizes_witness:
  "LZ4_decompress_safe False 4096 8192 [0] zero_mem 1 0 = Return 0 \<lparr>ip = 0, op = 0, mem = zero_mem\<rparr>
   \<and> LZ4_decompress_safe False 4096 8192 [7] zero_mem 1 0 = Return (- 1) \<lparr>ip = 0, op = 0, mem = zero_mem\<rparr>
   \<and> LZ4_decompress_fast False 4096 8192 [0, 9] zero_mem 0 = Return 1 \<lparr>ip = 0, op = 0, mem = zero_mem\<rparr>
   \<and> (\<exists>st. LZ4_decompress_safe False 4096 8192 [] zero_mem 0 5 = Return (- 1) st)"
  using
    degenerate_sizes[of "\<lparr>srcSize = 1, outputSize = 0,
        endOnInput = endOnInputSize, partialDecoding = decode_full_block, dict = noDict,
        lowPrefix = 0, dictSize = 0, src_addr = 4096, dst_addr = 8192, fast_dec_loop = False\<rparr>" "[0]" zero_mem]
    degenerate_sizes[of "\<lparr>srcSize = 1, outputSize = 0,
        endOnInput = endOnInputSize, partialDecoding = decode_full_block, dict = noDict,
        lowPrefix = 0, dictSize = 0, src_addr = 4096, dst_addr = 8192, fast_dec_loop = False\<rparr>" "[7]" zero_mem]
    degenerate_sizes[of "\<lparr>srcSize = 0, outputSize = 0,
        endOnInput = endOnOutputSize, partialDecoding = decode_full_block, dict = withPrefix64k,
        lowPrefix = - (64 * KB), dictSize = 0, src_addr = 4096, dst_addr = 8192, fast_dec_loop = False\<rparr>" "[0, 9]" zero_mem]
    degenerate_sizes[of "\<lparr>srcSize = 0, outputSize = 5,
        endOnInput = endOnInputSize, partialDecoding = decode_full_block, dict = noDict,
        lowPrefix = 0, dictSize = 0, src_addr = 4096, dst_addr = 8192, fast_dec_loop = False\<rparr>" "[]" zero_mem]
  by (simp add: LZ4_decompress_safe_def LZ4_decompress_fast_def on_input_def)

text \<open>The value returned, if the call returns.\<close>

definition returned :: "result \<Rightarrow> int option" where
  "returned r = (case r of Return w st \<Rightarrow> Some (sint w) | ReadFault st \<Rightarrow> None)"

text \<open>The parameter sets of \<^verbatim>\<open>LZ4_decompress_safe\<close>, of \<^verbatim>\<open>LZ4_decompress_fast\<close> and of a
  partial safe decoder (specification, section 4.6), for buffers at the addresses
  4096 and 8192 and a build without the fast loop.\<close>

definition safe_params :: "32 word \<Rightarrow> 32 word \<Rightarrow> params" where
  "safe_params n cap =
     \<lparr>srcSize = n, outputSize = cap,
      endOnInput = endOnInputSize, partialDecoding = decode_full_block, dict = noDict,
      lowPrefix = 0, dictSize = 0, src_addr = 4096, dst_addr = 8192, fast_dec_loop = False\<rparr>"

definition fast_params :: "32 word \<Rightarrow> params" where
  "fast_params cap =
     \<lparr>srcSize = 0, outputSize = cap,
      endOnInput = endOnOutputSize, partialDecoding = decode_full_block, dict = withPrefix64k,
      lowPrefix = - (64 * KB), dictSize = 0, src_addr = 4096, dst_addr = 8192, fast_dec_loop = False\<rparr>"

definition partial_params :: "32 word \<Rightarrow> 32 word \<Rightarrow> params" where
  "partial_params n cap =
     \<lparr>srcSize = n, outputSize = cap,
      endOnInput = endOnInputSize, partialDecoding = partial_decode, dict = noDict,
      lowPrefix = 0, dictSize = 0, src_addr = 4096, dst_addr = 8192, fast_dec_loop = False\<rparr>"

section \<open>The offset check\<close>

lemma LZ4_readLE16_less: "LZ4_readLE16 src i = Some off \<Longrightarrow> off < 65536"
proof -
  assume a: "LZ4_readLE16 src i = Some off"
  then obtain x y :: byte where "off = uint x + 256 * uint y"
    by (auto simp: LZ4_readLE16_def split: option.splits list.splits)
  moreover have "uint x < 256" "uint y < 256" using uint_lt2p[of x] uint_lt2p[of y] by simp_all
  ultimately show ?thesis by linarith
qed

text \<open>Claim C2. \<open>checkOffset\<close> holds exactly when \<open>endOnInput\<close> is \<open>endOnInputSize\<close> and
  \<open>dictSize < 64 KiB\<close>. When it holds and \<open>match + dictSize < lowPrefix\<close>, each place that
  decodes a match ends the pass at \<^verbatim>\<open>_output_error\<close> with the state it had behind the
  offset field: the label \<^verbatim>\<open>_copy_match\<close> and the fast loop for any parameters, and the
  places that read the offset (main loop, fast loop, and the shortcut unless
  \<open>dict = withPrefix64k\<close>). With \<open>dict = withPrefix64k\<close> and \<open>lowPrefix = dst - 64 KiB\<close> a
  16-bit offset cannot reach below \<open>lowPrefix\<close>. When \<open>checkOffset\<close> is false the test is
  skipped: \<^verbatim>\<open>_copy_match\<close> goes on with the match length.\<close>

theorem offset_range_check:
  "(checkOffset p \<longleftrightarrow> endOnInput p = endOnInputSize \<and> int (dictSize p) < 64 * 1024)
   \<and> (checkOffset p \<and> match + int (dictSize p) < lowPrefix p \<longrightarrow>
        copy_match p src st offset match len = OutputError st
        \<and> fast_match_length p src st offset match len = Safe (OutputError st))
   \<and> (checkOffset p \<and> LZ4_readLE16 src (ip st) = Some offset
        \<and> op st - offset + int (dictSize p) < lowPrefix p \<longrightarrow>
        get_offset p src st token = OutputError (st\<lparr>ip := ip st + 2\<rparr>)
        \<and> fast_get_offset p src st token = Safe (OutputError (st\<lparr>ip := ip st + 2\<rparr>))
        \<and> (dict p \<noteq> withPrefix64k \<longrightarrow>
             shortcut_match p src st token = OutputError (st\<lparr>ip := ip st + 2\<rparr>)))
   \<and> (dict p = withPrefix64k \<and> lowPrefix p = - (64 * KB) \<and> 0 \<le> op st
        \<and> LZ4_readLE16 src (ip st) = Some offset \<longrightarrow>
        \<not> op st - offset + int (dictSize p) < lowPrefix p)
   \<and> (\<not> checkOffset p \<longrightarrow>
        copy_match p src st offset match len = match_length p src st offset match len
        \<and> (len \<noteq> ML_MASK \<longrightarrow>
             fast_match_length p src st offset match len =
               fast_match_dispatch p st True offset match (len + MINMATCH)))"
proof (intro conjI impI)
  show "checkOffset p \<longleftrightarrow> endOnInput p = endOnInputSize \<and> int (dictSize p) < 64 * 1024"
    by (simp add: checkOffset_def safeDecode_def)
next
  assume "checkOffset p \<and> match + int (dictSize p) < lowPrefix p"
  then show "copy_match p src st offset match len = OutputError st"
    and "fast_match_length p src st offset match len = Safe (OutputError st)"
    by (simp_all add: copy_match_def fast_match_length_def)
next
  assume a: "checkOffset p \<and> LZ4_readLE16 src (ip st) = Some offset
        \<and> op st - offset + int (dictSize p) < lowPrefix p"
  then show "get_offset p src st token = OutputError (st\<lparr>ip := ip st + 2\<rparr>)"
    and "fast_get_offset p src st token = Safe (OutputError (st\<lparr>ip := ip st + 2\<rparr>))"
    by (simp_all add: get_offset_def fast_get_offset_def copy_match_def fast_match_length_def)
  assume "dict p \<noteq> withPrefix64k"
  moreover from a have "\<not> lowPrefix p \<le> op st - offset"
    by (simp add: checkOffset_def)
  ultimately show "shortcut_match p src st token = OutputError (st\<lparr>ip := ip st + 2\<rparr>)"
    using a by (simp add: shortcut_match_def Let_def copy_match_def)
next
  assume "dict p = withPrefix64k \<and> lowPrefix p = - (64 * KB) \<and> 0 \<le> op st
        \<and> LZ4_readLE16 src (ip st) = Some offset"
  then show "\<not> op st - offset + int (dictSize p) < lowPrefix p"
    using LZ4_readLE16_less[of src "ip st" offset] by simp
next
  assume "\<not> checkOffset p"
  then show "copy_match p src st offset match len = match_length p src st offset match len"
    by (simp add: copy_match_def)
next
  assume "\<not> checkOffset p" "len \<noteq> ML_MASK"
  then show "fast_match_length p src st offset match len =
               fast_match_dispatch p st True offset match (len + MINMATCH)"
    by (simp add: fast_match_length_def)
qed

theorem offset_range_check_witness:
  "checkOffset (safe_params 21 40)
   \<and> get_offset (safe_params 21 40) [0x50, 1, 2, 3, 4, 5, 10, 0] \<lparr>ip = 6, op = 5, mem = zero_mem\<rparr> 0x50
       = OutputError \<lparr>ip = 8, op = 5, mem = zero_mem\<rparr>
   \<and> copy_match (safe_params 21 40) [] \<lparr>ip = 8, op = 5, mem = zero_mem\<rparr> 10 (- 5) 0
       = OutputError \<lparr>ip = 8, op = 5, mem = zero_mem\<rparr>
   \<and> \<not> checkOffset (fast_params 40)
   \<and> \<not> (5 - 10 + int (dictSize (fast_params 40)) < lowPrefix (fast_params 40))
   \<and> copy_match (fast_params 40) [] \<lparr>ip = 8, op = 5, mem = zero_mem\<rparr> 10 (- 5) 0
       = match_length (fast_params 40) [] \<lparr>ip = 8, op = 5, mem = zero_mem\<rparr> 10 (- 5) 0"
  using
    offset_range_check[of "safe_params 21 40" "- 5" "[0x50, 1, 2, 3, 4, 5, 10, 0]"
      "\<lparr>ip = 6, op = 5, mem = zero_mem\<rparr>" 10 0 "0x50"]
    offset_range_check[of "safe_params 21 40" "- 5" "[]"
      "\<lparr>ip = 8, op = 5, mem = zero_mem\<rparr>" 10 0 "0"]
    offset_range_check[of "fast_params 40" "- 5" "[]"
      "\<lparr>ip = 8, op = 5, mem = zero_mem\<rparr>" 10 0 "0"]
    offset_range_check[of "fast_params 40" "- 5" "[0x50, 1, 2, 3, 4, 5, 10, 0]"
      "\<lparr>ip = 6, op = 5, mem = zero_mem\<rparr>" 10 0 "0"]
  by (simp add: safe_params_def fast_params_def checkOffset_def safeDecode_def
      LZ4_readLE16_def src_bytes_def)

section \<open>A zero offset\<close>

text \<open>A block of 17 bytes: one literal, a match of length 4 whose offset field is
  zero, and twelve last literals.\<close>

definition zero_offset_block :: "byte list" where
  "zero_offset_block = [0x10, 65, 0, 0, 0xC0, 1, 2, 3, 4, 5, 6, 7, 8, 9, 10, 11, 12]"

text \<open>Claim C5, as stated, fails: the safe decoder reads the offset 0 of
  \<open>zero_offset_block\<close>, copies the match and returns 17, the size of the output.\<close>

theorem zero_offset_counterexample:
  "LZ4_readLE16 zero_offset_block 2 = Some 0
   \<and> returned (LZ4_decompress_safe False 4096 8192 zero_offset_block zero_mem 17 17) = Some 17
   \<and> returned (LZ4_decompress_safe True 4096 8192 zero_offset_block zero_mem 17 17) = Some 17"
  by code_simp

text \<open>Claim C5, amended. The decoder has no test for a zero offset. With \<open>offset = 0\<close> the
  match pointer is \<open>op\<close> itself, which passes the range test whenever
  \<open>lowPrefix \<le> op + dictSize\<close>; the main loop and the shortcut then go on to the match
  length and the match copy with \<open>match = op\<close>, and so does the fast loop.\<close>

theorem zero_offset_accepted:
  "LZ4_readLE16 src (ip st) = Some 0 \<and> lowPrefix p \<le> op st + int (dictSize p) \<longrightarrow>
     get_offset p src st token
       = match_length p src (st\<lparr>ip := ip st + 2\<rparr>) 0 (op st) (token AND ML_MASK)
     \<and> shortcut_match p src st token
       = match_length p src (st\<lparr>ip := ip st + 2\<rparr>) 0 (op st) (token AND ML_MASK)
     \<and> (token AND ML_MASK \<noteq> ML_MASK \<longrightarrow>
          fast_get_offset p src st token
            = fast_match_dispatch p (st\<lparr>ip := ip st + 2\<rparr>) True 0 (op st)
                ((token AND ML_MASK) + MINMATCH))"
  by (simp add: get_offset_def shortcut_match_def fast_get_offset_def copy_match_def
      fast_match_length_def Let_def)

theorem zero_offset_accepted_witness:
  "get_offset (safe_params 17 17) zero_offset_block \<lparr>ip = 2, op = 1, mem = zero_mem\<rparr> 0x10
     = match_length (safe_params 17 17) zero_offset_block \<lparr>ip = 4, op = 1, mem = zero_mem\<rparr> 0 1 0"
  using zero_offset_accepted[of zero_offset_block "\<lparr>ip = 2, op = 1, mem = zero_mem\<rparr>"
      "safe_params 17 17" "0x10"]
  by (simp add: zero_offset_block_def LZ4_readLE16_def src_bytes_def safe_params_def)

section \<open>The two-stage shortcut\<close>

text \<open>The entry condition in the words of the specification (section 4.4) and of claim
  C8: \<open>LL\<close> in 0..14, \<open>ip + 16 \<le> shortiend\<close> and \<open>op + 18 \<le> shortoend\<close>.\<close>

definition spec_shortcut_cond :: "params \<Rightarrow> int \<Rightarrow> int \<Rightarrow> int \<Rightarrow> bool" where
  "spec_shortcut_cond p len i opos =
     (0 \<le> len \<and> len \<le> 14 \<and> i + 16 \<le> shortiend p \<and> opos + 18 \<le> shortoend p)"

text \<open>The start of a block: a sequence of one literal and a match of length 4 at
  offset 8, in 20 bytes of input.\<close>

definition short_block :: "byte list" where
  "short_block = [0x10, 65, 8, 0, 0xC0, 1, 2, 3, 4, 5, 6, 7, 8, 9, 10, 11, 12, 0, 0, 0]"

text \<open>Claim C8, as stated, fails. With 20 bytes of input, 48 of output and \<open>op = 8\<close>, a
  pass over \<open>short_block\<close> takes the shortcut: it stores the bytes 8 to 26 (16 for the
  literal, 18 for the match), where the general path stores the bytes 8 to 24. Yet
  \<open>ip + 16 \<le> shortiend\<close> and \<open>op + 18 \<le> shortoend\<close> are both false.\<close>

theorem shortcut_entry_counterexample:
  "\<not> spec_shortcut_cond (safe_params 20 48) 1 1 8
   \<and> \<not> (1 + 16 \<le> shortiend (safe_params 20 48))
   \<and> \<not> (8 + 18 \<le> shortoend (safe_params 20 48))
   \<and> safe_iter (safe_params 20 48) short_block \<lparr>ip = 0, op = 8, mem = zero_mem\<rparr>
       = shortcut (safe_params 20 48) short_block \<lparr>ip = 1, op = 8, mem = zero_mem\<rparr> 0x10 1
   \<and> written (mem (ctl_state
         (safe_iter (safe_params 20 48) short_block \<lparr>ip = 0, op = 8, mem = zero_mem\<rparr>)))
       = {8 ..< 27}
   \<and> written (mem (ctl_state
         (literal_length (safe_params 20 48) short_block \<lparr>ip = 1, op = 8, mem = zero_mem\<rparr> 0x10 1)))
       = {8 ..< 25}"
proof -
  have a: "\<not> spec_shortcut_cond (safe_params 20 48) 1 1 8
      \<and> \<not> (1 + 16 \<le> shortiend (safe_params 20 48))
      \<and> \<not> (8 + 18 \<le> shortoend (safe_params 20 48))"
    by (simp add: spec_shortcut_cond_def shortiend_def shortoend_def iend_def oend_def
        on_input_def safe_params_def)
  have b: "safe_iter (safe_params 20 48) short_block \<lparr>ip = 0, op = 8, mem = zero_mem\<rparr>
       = shortcut (safe_params 20 48) short_block \<lparr>ip = 1, op = 8, mem = zero_mem\<rparr> 0x10 1"
    by (simp add: safe_iter_def short_block_def src_byte_def shortcut_cond_def shortiend_def
        shortoend_def iend_def oend_def on_input_def safe_params_def drop_bit_eq_div)
  have c: "written (mem (ctl_state
         (safe_iter (safe_params 20 48) short_block \<lparr>ip = 0, op = 8, mem = zero_mem\<rparr>)))
       = {8 ..< 27}"
    by code_simp
  have d: "written (mem (ctl_state
         (literal_length (safe_params 20 48) short_block \<lparr>ip = 1, op = 8, mem = zero_mem\<rparr> 0x10 1)))
       = {8 ..< 25}"
    by code_simp
  from a b c d show ?thesis by blast
qed

text \<open>Claim C8, amended. In safe mode a pass enters the shortcut exactly when the
  literal length seed is at most 14 and, with \<open>ip\<close> behind the token,
  \<open>ip < iend - 16\<close> (that is \<open>ip < shortiend\<close>) and \<open>op \<le> oend - 32\<close> (that is
  \<open>op \<le> shortoend\<close>). The shortcut stores 16 input bytes at \<open>op\<close>, advances both
  cursors by the literal length and reads the offset; it copies 18 bytes and goes on
  to the next token when the match length seed is not 15, \<open>offset \<ge> 8\<close> and
  (\<open>dict = withPrefix64k\<close> or \<open>match \<ge> lowPrefix\<close>), and continues at the label
  \<^verbatim>\<open>_copy_match\<close> otherwise.\<close>

theorem shortcut_entry:
  "(on_input p \<and> src_byte src (ip st) = Some t \<longrightarrow>
      safe_iter p src st =
        (if drop_bit ML_BITS (uint t) \<le> 14 \<and> ip st + 1 < iend p - 16 \<and> op st \<le> oend p - 32
         then shortcut p src (st\<lparr>ip := ip st + 1\<rparr>) (uint t) (drop_bit ML_BITS (uint t))
         else literal_length p src (st\<lparr>ip := ip st + 1\<rparr>) (uint t) (drop_bit ML_BITS (uint t))))
   \<and> (on_input p \<and> memcpy_in src (mem st) (op st) (ip st) 16 = Some m'
        \<and> LZ4_readLE16 src (ip st + len) = Some offset \<longrightarrow>
      written m' = written (mem st) \<union> {op st ..< op st + 16}
      \<and> shortcut p src st token len =
        (if token AND ML_MASK \<noteq> ML_MASK \<and> 8 \<le> offset
            \<and> (dict p = withPrefix64k \<or> lowPrefix p \<le> op st + len - offset)
         then Continue
           (st\<lparr>ip := ip st + len + 2, op := op st + len + (token AND ML_MASK) + MINMATCH,
            mem := memcpy (memcpy (memcpy m' (op st + len) (op st + len - offset) 8)
                            (op st + len + 8) (op st + len - offset + 8) 8)
                    (op st + len + 16) (op st + len - offset + 16) 2\<rparr>)
         else copy_match p src (st\<lparr>op := op st + len, mem := m', ip := ip st + len + 2\<rparr>)
                offset (op st + len - offset) (token AND ML_MASK)))"
proof (intro conjI impI)
  assume a: "on_input p \<and> src_byte src (ip st) = Some t"
  have "(drop_bit ML_BITS (uint t) \<noteq> 15) = (drop_bit ML_BITS (uint t) \<le> 14)"
    using token_seed_bounds[of t] by linarith
  with a show "safe_iter p src st =
        (if drop_bit ML_BITS (uint t) \<le> 14 \<and> ip st + 1 < iend p - 16 \<and> op st \<le> oend p - 32
         then shortcut p src (st\<lparr>ip := ip st + 1\<rparr>) (uint t) (drop_bit ML_BITS (uint t))
         else literal_length p src (st\<lparr>ip := ip st + 1\<rparr>) (uint t) (drop_bit ML_BITS (uint t)))"
    by (simp add: safe_iter_def Let_def shortcut_cond_def shortiend_def shortoend_def)
next
  assume a: "on_input p \<and> memcpy_in src (mem st) (op st) (ip st) 16 = Some m'
        \<and> LZ4_readLE16 src (ip st + len) = Some offset"
  then show "written m' = written (mem st) \<union> {op st ..< op st + 16}"
    by (auto simp: memcpy_in_eq_Some poke_block_def)
  from a show "shortcut p src st token len =
        (if token AND ML_MASK \<noteq> ML_MASK \<and> 8 \<le> offset
            \<and> (dict p = withPrefix64k \<or> lowPrefix p \<le> op st + len - offset)
         then Continue
           (st\<lparr>ip := ip st + len + 2, op := op st + len + (token AND ML_MASK) + MINMATCH,
            mem := memcpy (memcpy (memcpy m' (op st + len) (op st + len - offset) 8)
                            (op st + len + 8) (op st + len - offset + 8) 8)
                    (op st + len + 16) (op st + len - offset + 16) 2\<rparr>)
         else copy_match p src (st\<lparr>op := op st + len, mem := m', ip := ip st + len + 2\<rparr>)
                offset (op st + len - offset) (token AND ML_MASK))"
    by (auto simp: shortcut_def shortcut_match_def Let_def)
qed

theorem shortcut_entry_witness:
  "safe_iter (safe_params 20 48) short_block \<lparr>ip = 0, op = 8, mem = zero_mem\<rparr>
     = shortcut (safe_params 20 48) short_block \<lparr>ip = 1, op = 8, mem = zero_mem\<rparr> 0x10 1
   \<and> shortcut (safe_params 20 48) short_block \<lparr>ip = 1, op = 8, mem = zero_mem\<rparr> 0x10 1
     = Continue
         \<lparr>ip = 4, op = 13,
          mem = memcpy (memcpy (memcpy (poke_block zero_mem 8 (take 16 (drop 1 short_block))) 9 1 8)
                    17 9 8) 25 17 2\<rparr>"
  using
    shortcut_entry[of "safe_params 20 48" short_block "\<lparr>ip = 0, op = 8, mem = zero_mem\<rparr>" "0x10"
      "poke_block zero_mem 8 (take 16 (drop 1 short_block))" 1 8 "0x10"]
    shortcut_entry[of "safe_params 20 48" short_block "\<lparr>ip = 1, op = 8, mem = zero_mem\<rparr>" "0x10"
      "poke_block zero_mem 8 (take 16 (drop 1 short_block))" 1 8 "0x10"]
  by (simp add: safe_params_def on_input_def src_byte_def short_block_def iend_def oend_def
      drop_bit_eq_div memcpy_in_eq_Some LZ4_readLE16_def src_bytes_def)

section \<open>Partial decoding stops when the input runs out\<close>

lemma safe_iter_Break: "safe_iter p src st = Break st' \<Longrightarrow> safe_loop p src st = Ended st'"
  by (simp add: safe_loop.simps[of p src st])

text \<open>Claim C10. In partial safe mode, let a literal run of \<open>len\<close> bytes fit both the input
  and the output, and let at most two input bytes remain behind it
  (\<open>ip + len \<ge> iend - 2\<close>). Then the run is copied by the bounded branch and the pass ends
  with a \<^verbatim>\<open>break\<close>, whether or not the output is full; the decoder returns the number
  of bytes decoded so far, \<open>op + len\<close>, and does not look at the input that is left.\<close>

theorem partial_stops_at_input_end:
  "partial p \<and> on_input p \<and> 0 \<le> len \<and> op st + len \<le> oend p \<and> ip st + len \<le> iend p
     \<and> iend p - 2 \<le> ip st + len
     \<and> memcpy_in src (mem st) (op st) (ip st) (nat len) = Some m' \<longrightarrow>
   safe_literal_copy p src st token len (op st + len)
     = Break (st\<lparr>ip := ip st + len, op := op st + len, mem := m'\<rparr>)
   \<and> end_of_decoding p (Ended (st\<lparr>ip := ip st + len, op := op st + len, mem := m'\<rparr>))
     = Return (word_of_int (op st + len)) (st\<lparr>ip := ip st + len, op := op st + len, mem := m'\<rparr>)"
  by (simp add: safe_literal_copy_def literal_tail_def end_of_decoding_def)

text \<open>Four bytes of input: a token announcing two literals, the literals, and one more
  byte.\<close>

definition truncated_block :: "byte list" where
  "truncated_block = [0x20, 97, 98, 0x77]"

theorem partial_stops_at_input_end_witness:
  "safe_literal_copy (partial_params 4 100) truncated_block \<lparr>ip = 1, op = 0, mem = zero_mem\<rparr> 0x20 2 2
     = Break \<lparr>ip = 3, op = 2, mem = poke_block zero_mem 0 [97, 98]\<rparr>
   \<and> returned (LZ4_decompress_generic (partial_params 4 100) truncated_block zero_mem) = Some 2
   \<and> ip (result_state (LZ4_decompress_generic (partial_params 4 100) truncated_block zero_mem)) = 3"
proof -
  have a: "returned (LZ4_decompress_generic (partial_params 4 100) truncated_block zero_mem) = Some 2
      \<and> ip (result_state (LZ4_decompress_generic (partial_params 4 100) truncated_block zero_mem)) = 3"
    by code_simp
  from partial_stops_at_input_end[of "partial_params 4 100" 2 "\<lparr>ip = 1, op = 0, mem = zero_mem\<rparr>"
      truncated_block "poke_block zero_mem 0 [97, 98]" "0x20"]
  have "safe_literal_copy (partial_params 4 100) truncated_block \<lparr>ip = 1, op = 0, mem = zero_mem\<rparr> 0x20 2 2
     = Break \<lparr>ip = 3, op = 2, mem = poke_block zero_mem 0 [97, 98]\<rparr>"
    by (simp add: partial_params_def partial_def on_input_def iend_def oend_def
        memcpy_in_eq_Some truncated_block_def)
  with a show ?thesis by simp
qed

section \<open>The output cursor and the exits of the loops\<close>

text \<open>What holds at a \<^verbatim>\<open>break\<close>.\<close>

definition brk_ok :: "params \<Rightarrow> dstate \<Rightarrow> bool" where
  "brk_ok p st =
     (op st \<le> oend p
      \<and> (\<not> partial p \<longrightarrow> (if on_input p then ip st = iend p else op st = oend p)))"

text \<open>What a pass that starts in \<open>st\<close> guarantees about its outcome.\<close>

definition step_ok :: "params \<Rightarrow> dstate \<Rightarrow> ctl \<Rightarrow> bool" where
  "step_ok p st r =
     (op st \<le> op (ctl_state r)
      \<and> (case r of
            Continue st' \<Rightarrow> partial p \<longrightarrow> op st' \<le> oend p
          | Break st' \<Rightarrow> brk_ok p st'
          | OutputError st' \<Rightarrow> True
          | Fault st' \<Rightarrow> True))"

definition op_inv :: "params \<Rightarrow> dstate \<Rightarrow> bool" where
  "op_inv p st = (0 \<le> op st \<and> (partial p \<longrightarrow> op st \<le> oend p))"

lemma step_ok_simps [simp]:
  "step_ok p st (Continue st') = (op st \<le> op st' \<and> (partial p \<longrightarrow> op st' \<le> oend p))"
  "step_ok p st (Break st') = (op st \<le> op st' \<and> brk_ok p st')"
  "step_ok p st (OutputError st') = (op st \<le> op st')"
  "step_ok p st (Fault st') = (op st \<le> op st')"
  by (simp_all add: step_ok_def)

lemma step_ok_from:
  "step_ok p st1 r \<Longrightarrow> op st \<le> op st1 \<Longrightarrow> step_ok p st r"
  by (auto simp: step_ok_def)

lemma oend_less: "oend p < 2147483648"
  using sint_lt[of "outputSize p"] by (simp add: oend_def)

lemma iend_less: "iend p < 2147483648"
  using sint_lt[of "srcSize p"] by (simp add: iend_def)

lemma size_t_of_room:
  "0 \<le> op st \<Longrightarrow> op st \<le> oend p \<Longrightarrow> size_t_of (oend p - op st) = oend p - op st"
  using oend_less[of p] by (simp add: size_t_of_def)

lemma partial_match_copy_ok:
  "partial p \<Longrightarrow> 0 \<le> op st \<Longrightarrow> op st \<le> oend p \<Longrightarrow> 0 \<le> len \<Longrightarrow>
     step_ok p st (partial_match_copy p st match len)"
  by (simp add: partial_match_copy_def Let_def size_t_of_room brk_ok_def min_def)

lemma match_near_end_ok:
  "op st \<le> cpy \<Longrightarrow> op st \<le> op1 \<Longrightarrow> step_ok p st (match_near_end p st m1 op1 match1 cpy)"
  by (simp add: match_near_end_def Let_def)

lemma full_match_copy_ok:
  "0 \<le> len \<Longrightarrow> step_ok p st (full_match_copy p st offset match len)"
  by (simp add: full_match_copy_def Let_def match_near_end_ok split: prod.split)

lemma safe_match_copy_ok:
  "op_inv p st \<Longrightarrow> 0 \<le> len \<Longrightarrow> step_ok p st (safe_match_copy p st offset match len)"
  by (simp add: safe_match_copy_def op_inv_def partial_match_copy_ok full_match_copy_ok)

lemma op_inv_ip [simp]: "op_inv p (st\<lparr>ip := i\<rparr>) = op_inv p st"
  by (simp add: op_inv_def)

lemma step_ok_ip [simp]: "step_ok p (st\<lparr>ip := i\<rparr>) r = step_ok p st r"
  by (simp add: step_ok_def)

lemma match_length_ok:
  "op_inv p st \<Longrightarrow> 0 \<le> len \<Longrightarrow> step_ok p st (match_length p src st offset match len)"
proof -
  assume a: "op_inv p st" "0 \<le> len"
  have "step_ok p st (safe_match_copy p (st\<lparr>ip := i\<rparr>) offset match (len + n + 4))"
    if "0 \<le> n" for i n
    using safe_match_copy_ok[of p "st\<lparr>ip := i\<rparr>" "len + n + 4" offset match] a that by simp
  moreover have "step_ok p st (safe_match_copy p st offset match (len + 4))"
    using safe_match_copy_ok[of p st "len + 4" offset match] a by simp
  ultimately show ?thesis
    by (auto simp: match_length_def split: option.split dest: read_variable_length_mono)
qed

lemma copy_match_ok:
  "op_inv p st \<Longrightarrow> 0 \<le> len \<Longrightarrow> step_ok p st (copy_match p src st offset match len)"
  by (simp add: copy_match_def match_length_ok)

lemma seed_nonneg: "0 \<le> token \<Longrightarrow> 0 \<le> token AND (15 :: int)"
  by simp

lemma get_offset_ok:
  "op_inv p st \<Longrightarrow> 0 \<le> token \<Longrightarrow> step_ok p st (get_offset p src st token)"
  using copy_match_ok[of p "st\<lparr>ip := ip st + 2\<rparr>" "token AND 15" src]
  by (simp add: get_offset_def split: option.split)

lemma step_ok_get_offset:
  "op_inv p st1 \<Longrightarrow> 0 \<le> token \<Longrightarrow> op st \<le> op st1 \<Longrightarrow>
     step_ok p st (get_offset p src st1 token)"
  by (rule step_ok_from[OF get_offset_ok])

lemma literal_tail_ok:
  "0 \<le> op st \<Longrightarrow> 0 \<le> len \<Longrightarrow> cpy = op st + len \<Longrightarrow> (partial p \<longrightarrow> cpy \<le> oend p) \<Longrightarrow>
     0 \<le> token \<Longrightarrow> step_ok p st (literal_tail p src st token len cpy)"
  by (auto simp: literal_tail_def brk_ok_def op_inv_def split: option.split
      intro!: step_ok_get_offset)

lemma literal_wild_ok:
  "0 \<le> op st \<Longrightarrow> 0 \<le> len \<Longrightarrow> cpy = op st + len \<Longrightarrow> (partial p \<longrightarrow> cpy \<le> oend p) \<Longrightarrow>
     0 \<le> token \<Longrightarrow> step_ok p st (literal_wild p src st token len cpy)"
  by (auto simp: literal_wild_def op_inv_def split: option.split
      intro!: step_ok_get_offset)

lemma safe_literal_copy_ok:
  "op_inv p st \<Longrightarrow> 0 \<le> len \<Longrightarrow> cpy = op st + len \<Longrightarrow> 0 \<le> token \<Longrightarrow>
     step_ok p st (safe_literal_copy p src st token len cpy)"
  by (auto simp: safe_literal_copy_def op_inv_def size_t_of_room
      intro!: literal_tail_ok literal_wild_ok)


lemma literal_length_ok:
  assumes "op_inv p st" "0 \<le> len" "0 \<le> token"
  shows "step_ok p st (literal_length p src st token len)"
proof -
  have "step_ok p st (safe_literal_copy p src (st\<lparr>ip := i\<rparr>) token (len + n) (op st + (len + n)))"
    if "0 \<le> n" for i n
    using safe_literal_copy_ok[of p "st\<lparr>ip := i\<rparr>" "len + n" "op st + (len + n)" token src]
      assms that by simp
  moreover have "step_ok p st (safe_literal_copy p src st token len (op st + len))"
    using safe_literal_copy_ok[of p st len "op st + len" token src] assms by simp
  ultimately show ?thesis
    by (auto simp: literal_length_def split: option.split dest: read_variable_length_mono)
qed

lemma seed_less: "0 \<le> token \<Longrightarrow> token AND (15 :: int) \<le> 15"
  by (simp add: AND_upper2)

lemma shortcut_match_ok:
  assumes "0 \<le> op st" "op st + 18 \<le> oend p" "0 \<le> token"
  shows "step_ok p st (shortcut_match p src st token)"
proof -
  have i: "op_inv p (st\<lparr>ip := ip st + 2\<rparr>)" using assms by (simp add: op_inv_def)
  have s: "0 \<le> token AND 15" "token AND 15 \<le> 15"
    using assms(3) by (simp_all add: AND_upper2)
  have b: "token AND 15 \<noteq> 15 \<Longrightarrow> op st + (token AND 15) + 4 \<le> oend p"
    using s assms(2) by linarith
  show ?thesis
    using copy_match_ok[OF i s(1), of src] assms(1) s(1) b
    by (auto simp: shortcut_match_def Let_def split: option.split)
qed

lemma shortcut_ok:
  assumes "0 \<le> op st" "shortcut_cond p len (ip st) (op st)" "0 \<le> len" "len \<le> 15" "0 \<le> token"
  shows "step_ok p st (shortcut p src st token len)"
proof -
  from assms have b: "op st + len + 18 \<le> oend p"
    by (auto simp: shortcut_cond_def shortoend_def split: if_splits)
  have "step_ok p st (shortcut_match p src (st\<lparr>ip := ip st + len, op := op st + len, mem := m'\<rparr>) token)"
    for m'
    using shortcut_match_ok[of "st\<lparr>ip := ip st + len, op := op st + len, mem := m'\<rparr>" p token src]
      assms b by (auto intro: step_ok_from)
  then show ?thesis
    by (simp add: shortcut_def split: option.split)
qed

lemma safe_iter_ok:
  assumes "op_inv p st"
  shows "step_ok p st (safe_iter p src st)"
proof (cases "src_byte src (ip st)")
  case None
  then show ?thesis by (simp add: safe_iter_def)
next
  case (Some t)
  note tb = token_seed_bounds[of t]
  have u: "0 \<le> uint t" by simp
  have i: "op_inv p (st\<lparr>ip := ip st + 1\<rparr>)" using assms by simp
  show ?thesis
  proof (cases "shortcut_cond p (drop_bit ML_BITS (uint t)) (ip st + 1) (op st)")
    case True
    from assms have "0 \<le> op (st\<lparr>ip := ip st + 1\<rparr>)" by (simp add: op_inv_def)
    from shortcut_ok[OF this _ conjunct1[OF tb] conjunct2[OF tb] u, of p src] True Some
    show ?thesis by (simp add: safe_iter_def Let_def)
  next
    case False
    from literal_length_ok[OF i conjunct1[OF tb] u, of src] False Some
    show ?thesis by (simp add: safe_iter_def Let_def)
  qed
qed

lemma safe_iter_adv: "ip_adv src st (ctl_state (safe_iter p src st))"
proof (cases "src_byte src (ip st)")
  case None
  then show ?thesis by (simp add: safe_iter_def ip_adv_refl)
next
  case (Some t)
  then have "ip_adv src st (st\<lparr>ip := ip st + 1\<rparr>)"
    by (auto simp: src_byte_def ip_adv_def split: if_splits)
  from ip_adv_trans[OF this safe_iter_behind_token[OF Some]] show ?thesis .
qed

text \<open>The main loop ends in a state that satisfies \<open>brk_ok\<close>, with the cursors advanced.\<close>

definition exit_ok :: "params \<Rightarrow> byte list \<Rightarrow> dstate \<Rightarrow> exit \<Rightarrow> bool" where
  "exit_ok p src st x =
     (ip_adv src st (exit_state x) \<and> op st \<le> op (exit_state x)
      \<and> (case x of Ended st' \<Rightarrow> brk_ok p st' | Errored st' \<Rightarrow> True | Faulted st' \<Rightarrow> True))"

lemma exit_ok_from:
  "exit_ok p src st1 x \<Longrightarrow> ip_adv src st st1 \<Longrightarrow> op st \<le> op st1 \<Longrightarrow> exit_ok p src st x"
  by (auto simp: exit_ok_def intro: ip_adv_trans)

lemma safe_loop_ok:
  "op_inv p st \<Longrightarrow> exit_ok p src st (safe_loop p src st)"
proof (induction p src st rule: safe_loop.induct)
  case (1 p src st)
  note ok = safe_iter_ok[OF "1.prems", of src]
  note adv = safe_iter_adv[of src st p]
  show ?case
  proof (cases "safe_iter p src st")
    case (Continue st')
    with ok have "op_inv p st'" "op st \<le> op st'"
      using "1.prems" by (auto simp: op_inv_def)
    from "1.IH"[OF Continue this(1)] adv Continue this(2) show ?thesis
      by (auto simp: safe_loop.simps[of p src st] intro: exit_ok_from)
  next
    case (Break st')
    with ok adv show ?thesis by (simp add: safe_loop.simps[of p src st] exit_ok_def)
  next
    case (OutputError st')
    with ok adv show ?thesis by (simp add: safe_loop.simps[of p src st] exit_ok_def)
  next
    case (Fault st')
    with ok adv show ?thesis by (simp add: safe_loop.simps[of p src st] exit_ok_def)
  qed
qed

text \<open>The same for a pass of the fast loop, which keeps 64 bytes of room.\<close>

definition fstep_ok :: "params \<Rightarrow> dstate \<Rightarrow> fctl \<Rightarrow> bool" where
  "fstep_ok p st r =
     (case r of
        FastContinue st' \<Rightarrow> op st \<le> op st' \<and> op st' + 64 \<le> oend p
      | Safe c \<Rightarrow> step_ok p st c)"

lemma fstep_ok_simps [simp]:
  "fstep_ok p st (FastContinue st') = (op st \<le> op st' \<and> op st' + 64 \<le> oend p)"
  "fstep_ok p st (Safe c) = step_ok p st c"
  by (simp_all add: fstep_ok_def)

lemma fstep_ok_ip [simp]: "fstep_ok p (st\<lparr>ip := i\<rparr>) r = fstep_ok p st r"
  by (simp add: fstep_ok_def split: fctl.split)

lemma fstep_ok_from:
  "fstep_ok p st1 r \<Longrightarrow> op st \<le> op st1 \<Longrightarrow> fstep_ok p st r"
  by (auto simp: fstep_ok_def split: fctl.splits intro: step_ok_from)

lemma fast_match_dispatch_ok:
  "op_inv p st \<Longrightarrow> 0 \<le> len \<Longrightarrow> fstep_ok p st (fast_match_dispatch p st short offset match len)"
  by (simp add: fast_match_dispatch_def fast_match_copy_def Let_def safe_match_copy_ok)

lemma fast_match_length_ok:
  assumes "op_inv p st" "0 \<le> len"
  shows "fstep_ok p st (fast_match_length p src st offset match len)"
proof -
  have "fstep_ok p st (fast_match_dispatch p (st\<lparr>ip := i\<rparr>) False offset match (len + n + 4))"
    if "0 \<le> n" for i n
    using fast_match_dispatch_ok[of p "st\<lparr>ip := i\<rparr>" "len + n + 4" False offset match] assms that
    by simp
  moreover have "fstep_ok p st (fast_match_dispatch p st True offset match (len + 4))"
    using fast_match_dispatch_ok[of p st "len + 4" True offset match] assms by simp
  ultimately show ?thesis
    by (auto simp: fast_match_length_def split: option.split dest: read_variable_length_mono)
qed

lemma fast_get_offset_ok:
  "op_inv p st \<Longrightarrow> 0 \<le> token \<Longrightarrow> fstep_ok p st (fast_get_offset p src st token)"
  using fast_match_length_ok[of p "st\<lparr>ip := ip st + 2\<rparr>" "token AND 15" src]
  by (simp add: fast_get_offset_def split: option.split)

lemma fstep_ok_fast_get_offset:
  "op_inv p st1 \<Longrightarrow> 0 \<le> token \<Longrightarrow> op st \<le> op st1 \<Longrightarrow>
     fstep_ok p st (fast_get_offset p src st1 token)"
  by (rule fstep_ok_from[OF fast_get_offset_ok])

lemma fast_long_literals_ok:
  "op_inv p st \<Longrightarrow> 0 \<le> len \<Longrightarrow> 0 \<le> token \<Longrightarrow>
     fstep_ok p st (fast_long_literals p src st token len)"
  by (auto simp: fast_long_literals_def Let_def safe_literal_copy_ok op_inv_def split: option.split
      intro!: fstep_ok_fast_get_offset)

lemma fast_short_literals_ok:
  "op_inv p st \<Longrightarrow> op st + 64 \<le> oend p \<Longrightarrow> 0 \<le> len \<Longrightarrow> len \<le> 15 \<Longrightarrow> 0 \<le> token \<Longrightarrow>
     fstep_ok p st (fast_short_literals p src st token len)"
  by (auto simp: fast_short_literals_def Let_def safe_literal_copy_ok op_inv_def
      split: option.split if_splits intro!: fstep_ok_fast_get_offset)

lemma fast_literal_length_ok:
  assumes "op_inv p st" "0 \<le> len" "0 \<le> token"
  shows "fstep_ok p st (fast_literal_length p src st token len)"
proof -
  have "fstep_ok p st (fast_long_literals p src (st\<lparr>ip := i\<rparr>) token (len + n))"
    if "0 \<le> n" for i n
    using fast_long_literals_ok[of p "st\<lparr>ip := i\<rparr>" "len + n" token src] assms that by simp
  then show ?thesis
    by (auto simp: fast_literal_length_def split: option.split dest: read_variable_length_mono)
qed

lemma fast_iter_ok:
  assumes "op_inv p st" "op st + 64 \<le> oend p"
  shows "fstep_ok p st (fast_iter p src st)"
proof (cases "src_byte src (ip st)")
  case None
  then show ?thesis by (simp add: fast_iter_def)
next
  case (Some t)
  note tb = token_seed_bounds[of t]
  have u: "0 \<le> uint t" by simp
  have i: "op_inv p (st\<lparr>ip := ip st + 1\<rparr>)" "op (st\<lparr>ip := ip st + 1\<rparr>) + 64 \<le> oend p"
    using assms by simp_all
  from fast_literal_length_ok[OF i(1) conjunct1[OF tb] u, of src]
    fast_short_literals_ok[OF i conjunct1[OF tb] conjunct2[OF tb] u, of src] Some
  show ?thesis by (cases "drop_bit ML_BITS (uint t) = 15") (simp_all add: fast_iter_def Let_def)
qed

lemma fast_iter_adv: "ip_adv src st (fctl_state (fast_iter p src st))"
proof (cases "src_byte src (ip st)")
  case None
  then show ?thesis by (simp add: fast_iter_def ip_adv_refl)
next
  case (Some t)
  then have "ip_adv src st (st\<lparr>ip := ip st + 1\<rparr>)"
    by (auto simp: src_byte_def ip_adv_def split: if_splits)
  from ip_adv_trans[OF this fast_iter_behind_token[OF Some]] show ?thesis .
qed

lemma fast_loop_ok:
  "op_inv p st \<Longrightarrow> op st + 64 \<le> oend p \<Longrightarrow> exit_ok p src st (fast_loop p src st)"
proof (induction p src st rule: fast_loop.induct)
  case (1 p src st)
  note ok = fast_iter_ok[OF "1.prems", of src]
  note adv = fast_iter_adv[of src st p]
  show ?case
  proof (cases "fast_iter p src st")
    case (FastContinue st')
    with ok have i: "op_inv p st'" "op st' + 64 \<le> oend p" "op st \<le> op st'"
      using "1.prems" by (auto simp: op_inv_def)
    from "1.IH"[OF FastContinue i(1,2)] adv FastContinue i(3) show ?thesis
      by (auto simp: fast_loop.simps[of p src st] intro: exit_ok_from)
  next
    case (Safe c)
    show ?thesis
    proof (cases c)
      case (Continue st')
      with ok Safe have i: "op_inv p st'" "op st \<le> op st'"
        using "1.prems" by (auto simp: op_inv_def)
      from safe_loop_ok[OF i(1), of src] adv Safe Continue i(2) show ?thesis
        by (auto simp: fast_loop.simps[of p src st] intro: exit_ok_from)
    next
      case (Break st')
      with ok adv Safe show ?thesis by (simp add: fast_loop.simps[of p src st] exit_ok_def)
    next
      case (OutputError st')
      with ok adv Safe show ?thesis by (simp add: fast_loop.simps[of p src st] exit_ok_def)
    next
      case (Fault st')
      with ok adv Safe show ?thesis by (simp add: fast_loop.simps[of p src st] exit_ok_def)
    qed
  qed
qed

lemma decode_loops_ok:
  "op_inv p st \<Longrightarrow> exit_ok p src st (decode_loops p src st)"
  by (simp add: decode_loops_def safe_loop_ok fast_loop_ok)

section \<open>The value returned\<close>

lemma sint_word_of_int_32:
  "- 2147483648 \<le> x \<Longrightarrow> x < 2147483648 \<Longrightarrow> sint (word_of_int x :: 32 word) = x"
  by (simp add: signed_of_int signed_take_bit_int_eq_self)

lemma error_code_32:
  "0 \<le> x \<Longrightarrow> x < 2147483648 \<Longrightarrow> sint (word_of_int (- x) - 1 :: 32 word) = - x - 1"
proof -
  assume a: "0 \<le> x" "x < 2147483648"
  have "(word_of_int (- x) - 1 :: 32 word) = word_of_int (- x - 1)" by simp
  with a show ?thesis by (simp only: sint_word_of_int_32)
qed

text \<open>The state of the decoder when the loops are entered.\<close>

definition start :: "memory \<Rightarrow> dstate" where
  "start m = \<lparr>ip = 0, op = 0, mem = m\<rparr>"

lemma generic_loops:
  "outputSize p \<noteq> 0 \<Longrightarrow> (on_input p \<longrightarrow> srcSize p \<noteq> 0) \<Longrightarrow>
     LZ4_decompress_generic p src m = end_of_decoding p (decode_loops p src (start m))"
  by (auto simp: LZ4_decompress_generic_def start_def Let_def)

lemma generic_no_output:
  "outputSize p = 0 \<Longrightarrow> LZ4_decompress_generic p src m = Return r st' \<Longrightarrow>
     st' = start m \<and> (r = - 1 \<or> (r = 0 \<and> on_input p) \<or> (r = 1 \<and> \<not> on_input p))"
  by (auto simp: LZ4_decompress_generic_def start_def Let_def split: if_splits option.splits)

lemma generic_no_input:
  "on_input p \<Longrightarrow> srcSize p = 0 \<Longrightarrow> LZ4_decompress_generic p src m = Return r st' \<Longrightarrow>
     st' = start m \<and> r = - 1"
  by (auto simp: LZ4_decompress_generic_def start_def Let_def split: if_splits option.splits)

lemma start_exit_ok:
  assumes "partial p \<longrightarrow> 0 \<le> oend p"
  shows "exit_ok p src (start m) (decode_loops p src (start m))"
  using assms by (intro decode_loops_ok) (simp add: op_inv_def start_def)

text \<open>The two ways the loops hand back a value, with the casts to \<^verbatim>\<open>int\<close> resolved.\<close>

lemma loops_return:
  assumes len: "int (length src) < 2147483648"
    and cap: "partial p \<longrightarrow> 0 \<le> oend p"
    and ret: "end_of_decoding p (decode_loops p src (start m)) = Return r st'"
  shows "(decode_loops p src (start m) = Ended st' \<and> brk_ok p st' \<and> 0 \<le> op st'
            \<and> 0 \<le> ip st' \<and> ip st' \<le> int (length src)
            \<and> sint r = (if on_input p then op st' else ip st') \<and> 0 \<le> sint r)
         \<or> (decode_loops p src (start m) = Errored st'
            \<and> 0 \<le> ip st' \<and> ip st' \<le> int (length src)
            \<and> sint r = - ip st' - 1 \<and> sint r < 0)"
proof -
  note ok = start_exit_ok[OF cap, of src m]
  show ?thesis
  proof (cases "decode_loops p src (start m)")
    case (Ended st)
    with ret have e: "st = st'" "r = (if on_input p then word_of_int (op st') else word_of_int (ip st'))"
      by (auto simp: end_of_decoding_def)
    from ok Ended e(1) have f: "brk_ok p st'" "0 \<le> op st'" "0 \<le> ip st'" "ip st' \<le> int (length src)"
      by (auto simp: exit_ok_def ip_adv_def start_def)
    from f(1) have "op st' \<le> oend p" by (simp add: brk_ok_def)
    with oend_less[of p] f(2) have "sint (word_of_int (op st') :: 32 word) = op st'"
      by (intro sint_word_of_int_32) auto
    moreover from len f(3,4) have "sint (word_of_int (ip st') :: 32 word) = ip st'"
      by (intro sint_word_of_int_32) auto
    ultimately have "sint r = (if on_input p then op st' else ip st')" "0 \<le> sint r"
      using e(2) f(2,3) by auto
    with Ended e(1) f show ?thesis by simp
  next
    case (Errored st)
    with ret have e: "st = st'" "r = word_of_int (- ip st') - 1"
      by (auto simp: end_of_decoding_def)
    from ok Errored e(1) have f: "0 \<le> ip st'" "ip st' \<le> int (length src)"
      by (auto simp: exit_ok_def ip_adv_def start_def)
    with len e(2) have "sint r = - ip st' - 1"
      by (simp only: error_code_32)
    with Errored e(1) f show ?thesis by simp
  next
    case (Faulted st)
    with ret show ?thesis by (simp add: end_of_decoding_def)
  qed
qed


text \<open>Claim C4. Let the safe decoder (full or partial, with a non-negative capacity in
  partial mode) run on an input buffer of less than 2 GiB. Whenever it returns a
  negative value, the value is \<open>-(ip - src) - 1\<close> for the position \<open>ip\<close> the input cursor
  has at the return: this covers every jump to \<^verbatim>\<open>_output_error\<close> and the early error
  returns for an empty input or an empty output, where \<open>ip\<close> is still \<open>src\<close>. A return
  through \<^verbatim>\<open>end of decoding\<close> is never negative.\<close>

theorem safe_error_value:
  "on_input p \<and> int (length src) < 2147483648 \<and> (partial p \<longrightarrow> 0 \<le> oend p)
     \<and> LZ4_decompress_generic p src m = Return r st' \<longrightarrow>
   (sint r < 0 \<longrightarrow> sint r = - ip st' - 1 \<and> 0 \<le> ip st' \<and> ip st' \<le> int (length src))
   \<and> (decode_loops p src (start m) = Errored st' \<and> outputSize p \<noteq> 0 \<and> srcSize p \<noteq> 0 \<longrightarrow>
        sint r < 0)"
proof (intro impI, elim conjE)
  assume a: "on_input p" "int (length src) < 2147483648" "partial p \<longrightarrow> 0 \<le> oend p"
    "LZ4_decompress_generic p src m = Return r st'"
  show "(sint r < 0 \<longrightarrow> sint r = - ip st' - 1 \<and> 0 \<le> ip st' \<and> ip st' \<le> int (length src))
   \<and> (decode_loops p src (start m) = Errored st' \<and> outputSize p \<noteq> 0 \<and> srcSize p \<noteq> 0 \<longrightarrow>
        sint r < 0)"
  proof (cases "outputSize p = 0 \<or> srcSize p = 0")
    case True
    with a generic_no_output[of p src m r st'] generic_no_input[of p src m r st']
    have "st' = start m" "r = - 1 \<or> r = 0" by auto
    with True show ?thesis by (auto simp: start_def)
  next
    case False
    with a(4) have "end_of_decoding p (decode_loops p src (start m)) = Return r st'"
      by (simp add: generic_loops)
    from loops_return[OF a(2,3) this] False show ?thesis by auto
  qed
qed


text \<open>The block of scenario S6: five literals, then a match at offset 10, which lies
  before the start of the output.\<close>

definition bad_offset_block :: "byte list" where
  "bad_offset_block =
     [0x50, 1, 2, 3, 4, 5, 10, 0, 0xC0, 1, 2, 3, 4, 5, 6, 7, 8, 9, 10, 11, 12]"

theorem safe_error_value_witness:
  "\<exists>r st'. LZ4_decompress_generic (safe_params 21 40) bad_offset_block zero_mem = Return r st'
      \<and> ip st' = 8 \<and> sint r = - 9 \<and> sint r = - ip st' - 1"
proof -
  have "case LZ4_decompress_generic (safe_params 21 40) bad_offset_block zero_mem of
          Return r st' \<Rightarrow> ip st' = 8 \<and> sint r = - 9
        | ReadFault st' \<Rightarrow> False"
    by code_simp
  then obtain r st' where
    a: "LZ4_decompress_generic (safe_params 21 40) bad_offset_block zero_mem = Return r st'"
      "ip st' = 8" "sint r = - 9"
    by (auto split: result.splits)
  have "on_input (safe_params 21 40)" "\<not> partial (safe_params 21 40)"
    "int (length bad_offset_block) < 2147483648"
    by (simp_all add: safe_params_def on_input_def partial_def bad_offset_block_def)
  with safe_error_value[of "safe_params 21 40" bad_offset_block zero_mem r st'] a
  have "sint r = - ip st' - 1" by simp
  with a show ?thesis by blast
qed

section \<open>Success in full mode\<close>

text \<open>Claim C3, as stated, fails for an empty output: \<^verbatim>\<open>LZ4_decompress_safe\<close> returns 0 for
  the one-byte input \<open>0x00\<close> and the capacity 0 before it moves the input cursor, so
  \<open>ip\<close> is \<open>src\<close> at the return while \<open>iend\<close> is \<open>src + 1\<close>.\<close>

theorem full_success_counterexample:
  "LZ4_decompress_safe False 4096 8192 [0] zero_mem 1 0
     = Return 0 \<lparr>ip = 0, op = 0, mem = zero_mem\<rparr>
   \<and> LZ4_decompress_safe False 4096 8192 [0] zero_mem 1 0
     = LZ4_decompress_generic (safe_params 1 0) [0] zero_mem
   \<and> \<not> partial (safe_params 1 0) \<and> on_input (safe_params 1 0)
   \<and> iend (safe_params 1 0) = 1
   \<and> ip (result_state (LZ4_decompress_generic (safe_params 1 0) [0] zero_mem))
       \<noteq> iend (safe_params 1 0)"
  by (simp add: LZ4_decompress_safe_def LZ4_decompress_generic_def on_input_def partial_def
      src_byte_def iend_def safe_params_def)

text \<open>Claim C3, amended. Let a full-mode decoder run with an output size other than zero
  on an input buffer of less than 2 GiB, and let it return a value that is not negative.
  In safe mode the input cursor is then at \<open>iend\<close> and the value is the position of the
  output cursor, \<open>op - dst\<close>, which is within the capacity; in fast mode the output cursor
  is at \<open>oend\<close> and the value is the position of the input cursor, \<open>ip - src\<close>.\<close>

theorem full_success:
  "\<not> partial p \<and> outputSize p \<noteq> 0 \<and> int (length src) < 2147483648
     \<and> LZ4_decompress_generic p src m = Return r st' \<and> 0 \<le> sint r \<longrightarrow>
   (on_input p \<longrightarrow> ip st' = iend p \<and> sint r = op st' \<and> op st' \<le> oend p)
   \<and> (\<not> on_input p \<longrightarrow> op st' = oend p \<and> sint r = ip st')"
proof (intro impI, elim conjE)
  assume a: "\<not> partial p" "outputSize p \<noteq> 0" "int (length src) < 2147483648"
    "LZ4_decompress_generic p src m = Return r st'" "0 \<le> sint r"
  show "(on_input p \<longrightarrow> ip st' = iend p \<and> sint r = op st' \<and> op st' \<le> oend p)
   \<and> (\<not> on_input p \<longrightarrow> op st' = oend p \<and> sint r = ip st')"
  proof (cases "on_input p \<and> srcSize p = 0")
    case True
    with a(4) generic_no_input[of p src m r st'] have "r = - 1" by simp
    with a(5) show ?thesis by simp
  next
    case False
    with a(2,4) have "end_of_decoding p (decode_loops p src (start m)) = Return r st'"
      by (simp add: generic_loops)
    from loops_return[OF a(3) _ this] a(1,5) show ?thesis
      by (auto simp: brk_ok_def)
  qed
qed

text \<open>A block of five literals (scenario S2).\<close>

definition hello_block :: "byte list" where
  "hello_block = [0x50, 72, 101, 108, 108, 111]"

theorem full_success_witness:
  "(\<exists>r st'. LZ4_decompress_generic (safe_params 6 5) hello_block zero_mem = Return r st'
      \<and> sint r = 5 \<and> ip st' = iend (safe_params 6 5) \<and> sint r = op st')
   \<and> (\<exists>r st'. LZ4_decompress_generic (fast_params 5) hello_block zero_mem = Return r st'
      \<and> sint r = 6 \<and> op st' = oend (fast_params 5) \<and> sint r = ip st')"
proof -
  have "case LZ4_decompress_generic (safe_params 6 5) hello_block zero_mem of
          Return r st' \<Rightarrow> sint r = 5
        | ReadFault st' \<Rightarrow> False"
    by code_simp
  then obtain r st' where
    a: "LZ4_decompress_generic (safe_params 6 5) hello_block zero_mem = Return r st'" "sint r = 5"
    by (auto split: result.splits)
  have "case LZ4_decompress_generic (fast_params 5) hello_block zero_mem of
          Return r st' \<Rightarrow> sint r = 6
        | ReadFault st' \<Rightarrow> False"
    by code_simp
  then obtain r2 st2 where
    b: "LZ4_decompress_generic (fast_params 5) hello_block zero_mem = Return r2 st2" "sint r2 = 6"
    by (auto split: result.splits)
  have c: "on_input (safe_params 6 5)" "\<not> partial (safe_params 6 5)"
    "outputSize (safe_params 6 5) \<noteq> 0"
    "\<not> on_input (fast_params 5)" "\<not> partial (fast_params 5)"
    "outputSize (fast_params 5) \<noteq> 0"
    "int (length hello_block) < 2147483648"
    by (simp_all add: safe_params_def fast_params_def on_input_def partial_def hello_block_def)
  from full_success[of "safe_params 6 5" hello_block zero_mem r st'] a c
  have "ip st' = iend (safe_params 6 5) \<and> sint r = op st'" by simp
  moreover from full_success[of "fast_params 5" hello_block zero_mem r2 st2] b c
  have "op st2 = oend (fast_params 5) \<and> sint r2 = ip st2" by simp
  ultimately show ?thesis using a b by blast
qed


section \<open>Partial decoding\<close>

text \<open>Claim C6, as stated, fails when the input is too short for the clamped run: in
  partial safe mode with a capacity of 3, a token that announces five literals followed
  by two bytes makes the decoder jump to \<^verbatim>\<open>_output_error\<close> (lines 470--478); it copies
  nothing and returns \<open>-2\<close>.\<close>

theorem partial_clamp_counterexample:
  "returned (LZ4_decompress_generic (partial_params 3 3) [0x50, 97, 98] zero_mem) = Some (- 2)
   \<and> written (mem (result_state
        (LZ4_decompress_generic (partial_params 3 3) [0x50, 97, 98] zero_mem))) = {}"
  by code_simp

text \<open>Claim C6, amended. In partial safe mode, let a literal run extend past the end of
  the output (\<open>op + len > oend\<close>, with \<open>0 \<le> op \<le> oend\<close>), and let the input hold the
  \<open>oend - op\<close> bytes that fit. Then exactly these bytes are copied, to \<open>op .. oend - 1\<close>,
  and the pass ends with a \<^verbatim>\<open>break\<close> with \<open>op = oend\<close>. And whenever a partial safe
  decoder with a non-negative capacity, on an input buffer of less than 2 GiB, returns
  a value that is not negative, the value is the position of the output cursor,
  \<open>op - dst\<close>, and at most the capacity.\<close>

theorem partial_clamp:
  "(partial p \<and> on_input p \<and> 0 \<le> op st \<and> op st \<le> oend p \<and> oend p < op st + len
      \<and> ip st + (oend p - op st) \<le> iend p
      \<and> memcpy_in src (mem st) (op st) (ip st) (nat (oend p - op st)) = Some m' \<longrightarrow>
    safe_literal_copy p src st token len (op st + len)
      = Break (st\<lparr>ip := ip st + (oend p - op st), op := oend p, mem := m'\<rparr>)
    \<and> written m' = written (mem st) \<union> {op st ..< oend p})
   \<and> (partial p \<and> on_input p \<and> 0 \<le> oend p \<and> int (length src) < 2147483648
      \<and> LZ4_decompress_generic p src m = Return r st' \<and> 0 \<le> sint r \<longrightarrow>
    sint r = op st' \<and> sint r \<le> oend p)"
proof -
  have one: "safe_literal_copy p src st token len (op st + len)
      = Break (st\<lparr>ip := ip st + (oend p - op st), op := oend p, mem := m'\<rparr>)
    \<and> written m' = written (mem st) \<union> {op st ..< oend p}"
    if a: "partial p \<and> on_input p \<and> 0 \<le> op st \<and> op st \<le> oend p \<and> oend p < op st + len
      \<and> ip st + (oend p - op st) \<le> iend p
      \<and> memcpy_in src (mem st) (op st) (ip st) (nat (oend p - op st)) = Some m'"
  proof
    from a show "safe_literal_copy p src st token len (op st + len)
      = Break (st\<lparr>ip := ip st + (oend p - op st), op := oend p, mem := m'\<rparr>)"
      by (simp add: safe_literal_copy_def literal_tail_def size_t_of_room)
    from a show "written m' = written (mem st) \<union> {op st ..< oend p}"
      by (auto simp: memcpy_in_eq_Some poke_block_def)
  qed
  have two: "sint r = op st' \<and> sint r \<le> oend p"
    if a: "partial p \<and> on_input p \<and> 0 \<le> oend p \<and> int (length src) < 2147483648
      \<and> LZ4_decompress_generic p src m = Return r st' \<and> 0 \<le> sint r"
  proof (cases "outputSize p = 0 \<or> srcSize p = 0")
    case True
    with a generic_no_output[of p src m r st'] generic_no_input[of p src m r st']
    have "st' = start m" "r = - 1 \<or> r = 0" by auto
    with a show ?thesis by (auto simp: start_def)
  next
    case False
    with a have e: "end_of_decoding p (decode_loops p src (start m)) = Return r st'"
      by (simp add: generic_loops)
    from a have "int (length src) < 2147483648" "partial p \<longrightarrow> 0 \<le> oend p" by simp_all
    from loops_return[OF this e] a show ?thesis
      by (auto simp: brk_ok_def)
  qed
  from one two show ?thesis by blast
qed

text \<open>A token that announces five literals, followed by five bytes.\<close>

definition five_literals :: "byte list" where
  "five_literals = [0x50, 97, 98, 99, 100, 101]"

theorem partial_clamp_witness:
  "safe_literal_copy (partial_params 6 3) five_literals \<lparr>ip = 1, op = 0, mem = zero_mem\<rparr> 0x50 5 5
     = Break \<lparr>ip = 4, op = 3, mem = poke_block zero_mem 0 [97, 98, 99]\<rparr>
   \<and> written (poke_block zero_mem 0 [97, 98, 99]) = {0 ..< 3}
   \<and> (\<exists>r st'. LZ4_decompress_generic (partial_params 6 3) five_literals zero_mem = Return r st'
        \<and> sint r = 3 \<and> sint r = op st' \<and> sint r \<le> oend (partial_params 6 3))"
proof -
  have "case LZ4_decompress_generic (partial_params 6 3) five_literals zero_mem of
          Return r st' \<Rightarrow> sint r = 3
        | ReadFault st' \<Rightarrow> False"
    by code_simp
  then obtain r st' where
    a: "LZ4_decompress_generic (partial_params 6 3) five_literals zero_mem = Return r st'"
      "sint r = 3"
    by (auto split: result.splits)
  have c: "on_input (partial_params 6 3)" "partial (partial_params 6 3)"
    "oend (partial_params 6 3) = 3" "iend (partial_params 6 3) = 6"
    "int (length five_literals) < 2147483648"
    by (simp_all add: partial_params_def on_input_def partial_def five_literals_def oend_def iend_def)
  note t = partial_clamp[of "partial_params 6 3" "\<lparr>ip = 1, op = 0, mem = zero_mem\<rparr>" 5
      five_literals "poke_block zero_mem 0 [97, 98, 99]" "0x50" zero_mem r st']
  from t c have "safe_literal_copy (partial_params 6 3) five_literals
        \<lparr>ip = 1, op = 0, mem = zero_mem\<rparr> 0x50 5 5
      = Break \<lparr>ip = 4, op = 3, mem = poke_block zero_mem 0 [97, 98, 99]\<rparr>
    \<and> written (poke_block zero_mem 0 [97, 98, 99]) = {0 ..< 3}"
    by (simp add: memcpy_in_eq_Some five_literals_def zero_mem_def)
  moreover from t a c have "sint r = op st' \<and> sint r \<le> oend (partial_params 6 3)"
    by simp
  ultimately show ?thesis using a by blast
qed

section \<open>Stores stay inside the output\<close>

text \<open>Every store made between \<open>m\<close> and \<open>m'\<close> is at an address from \<open>0\<close> up to, but not
  including, \<open>hi\<close>.\<close>

definition stores_in :: "int \<Rightarrow> memory \<Rightarrow> memory \<Rightarrow> bool" where
  "stores_in hi m m' = (written m' \<subseteq> written m \<union> {0 ..< hi})"

lemma stores_in_refl [simp]: "stores_in hi m m"
  by (simp add: stores_in_def)

lemma stores_in_trans: "stores_in hi a b \<Longrightarrow> stores_in hi b c \<Longrightarrow> stores_in hi a c"
  by (auto simp: stores_in_def)

lemma written_poke_block [simp]:
  "written (poke_block m a bs) = written m \<union> {a ..< a + int (length bs)}"
  by (simp add: poke_block_def)

lemma written_memcpy [simp]: "written (memcpy m d s n) = written m \<union> {d ..< d + int n}"
  by (simp add: memcpy_def peek_block_def)

lemma written_poke [simp]: "written (poke m a v) = written m \<union> {a ..< a + 1}"
  by (simp add: poke_def)

lemma stores_in_union:
  "stores_in hi m m1 \<Longrightarrow> written m' = written m1 \<union> {a ..< b} \<Longrightarrow> 0 \<le> a \<Longrightarrow> b \<le> hi \<Longrightarrow>
     stores_in hi m m'"
  by (auto simp: stores_in_def)

lemma stores_in_memcpy:
  "stores_in hi m m1 \<Longrightarrow> 0 \<le> d \<Longrightarrow> d + int n \<le> hi \<Longrightarrow> stores_in hi m (memcpy m1 d s n)"
  by (rule stores_in_union[where a=d and b="d + int n"]) simp_all

lemma stores_in_memcpy_in:
  "memcpy_in src m1 d s n = Some m' \<Longrightarrow> stores_in hi m m1 \<Longrightarrow> 0 \<le> d \<Longrightarrow> d + int n \<le> hi \<Longrightarrow>
     stores_in hi m m'"
  by (rule stores_in_union[where a=d and b="d + int n"]) (auto simp: memcpy_in_eq_Some)

lemma stores_in_wildCopy8:
  "stores_in hi m m1 \<Longrightarrow> 0 \<le> d \<Longrightarrow> d + 8 \<le> hi \<Longrightarrow> e + 7 \<le> hi \<Longrightarrow>
     stores_in hi m (LZ4_wildCopy8 m1 d s e)"
proof (induction m1 d s e rule: LZ4_wildCopy8.induct)
  case (1 m1 d s e)
  have a: "stores_in hi m (memcpy m1 d s 8)"
    using "1.prems" by (intro stores_in_memcpy) simp_all
  show ?case
  proof (cases "d + 8 < e")
    case True
    from "1.IH"[OF refl True a] "1.prems" True show ?thesis
      by (simp add: LZ4_wildCopy8.simps[of m1 d s e])
  next
    case False
    with a show ?thesis by (simp add: LZ4_wildCopy8.simps[of m1 d s e])
  qed
qed

lemma stores_in_wildCopy8_in:
  "LZ4_wildCopy8_in src m1 d s e = Some m' \<Longrightarrow> stores_in hi m m1 \<Longrightarrow> 0 \<le> d \<Longrightarrow>
     d + 8 \<le> hi \<Longrightarrow> e + 7 \<le> hi \<Longrightarrow> stores_in hi m m'"
proof (induction src m1 d s e rule: LZ4_wildCopy8_in.induct)
  case (1 src m1 d s e)
  from "1.prems"(1) obtain m2 where m2: "memcpy_in src m1 d s 8 = Some m2"
    by (auto simp: LZ4_wildCopy8_in.simps[of src m1 d s e] split: option.splits)
  have a: "stores_in hi m m2"
    using m2 "1.prems" by (intro stores_in_memcpy_in[OF m2]) simp_all
  show ?case
  proof (cases "d + 8 < e")
    case True
    with "1.prems"(1) m2 have "LZ4_wildCopy8_in src m2 (d + 8) (s + 8) e = Some m'"
      by (simp add: LZ4_wildCopy8_in.simps[of src m1 d s e])
    from "1.IH"[OF m2 True this a] "1.prems" True show ?thesis by simp
  next
    case False
    with "1.prems"(1) m2 a show ?thesis by (simp add: LZ4_wildCopy8_in.simps[of src m1 d s e])
  qed
qed

lemma stores_in_wildCopy32:
  "stores_in hi m m1 \<Longrightarrow> 0 \<le> d \<Longrightarrow> d + 32 \<le> hi \<Longrightarrow> e + 31 \<le> hi \<Longrightarrow>
     stores_in hi m (LZ4_wildCopy32 m1 d s e)"
proof (induction m1 d s e rule: LZ4_wildCopy32.induct)
  case (1 m1 d s e)
  have a: "stores_in hi m (memcpy (memcpy m1 d s 16) (d + 16) (s + 16) 16)"
    using "1.prems" by (intro stores_in_memcpy) simp_all
  show ?case
  proof (cases "d + 32 < e")
    case True
    from "1.IH"[OF refl True a] "1.prems" True show ?thesis
      by (simp add: LZ4_wildCopy32.simps[of m1 d s e])
  next
    case False
    with a show ?thesis by (simp add: LZ4_wildCopy32.simps[of m1 d s e])
  qed
qed

lemma stores_in_wildCopy32_in:
  "LZ4_wildCopy32_in src m1 d s e = Some m' \<Longrightarrow> stores_in hi m m1 \<Longrightarrow> 0 \<le> d \<Longrightarrow>
     d + 32 \<le> hi \<Longrightarrow> e + 31 \<le> hi \<Longrightarrow> stores_in hi m m'"
proof (induction src m1 d s e rule: LZ4_wildCopy32_in.induct)
  case (1 src m1 d s e)
  from "1.prems"(1) obtain m2 where m2: "memcpy_in src m1 d s 16 = Some m2"
    by (auto simp: LZ4_wildCopy32_in.simps[of src m1 d s e] split: option.splits)
  from "1.prems"(1) m2 obtain m3 where m3: "memcpy_in src m2 (d + 16) (s + 16) 16 = Some m3"
    by (auto simp: LZ4_wildCopy32_in.simps[of src m1 d s e] split: option.splits)
  have "stores_in hi m m2"
    using "1.prems" by (intro stores_in_memcpy_in[OF m2]) simp_all
  then have a: "stores_in hi m m3"
    using "1.prems" by (intro stores_in_memcpy_in[OF m3]) simp_all
  show ?case
  proof (cases "d + 32 < e")
    case True
    with "1.prems"(1) m2 m3 have "LZ4_wildCopy32_in src m3 (d + 32) (s + 32) e = Some m'"
      by (simp add: LZ4_wildCopy32_in.simps[of src m1 d s e])
    from "1.IH"[OF m2 m3 True this a] "1.prems" True show ?thesis by simp
  next
    case False
    with "1.prems"(1) m2 m3 a show ?thesis
      by (simp add: LZ4_wildCopy32_in.simps[of src m1 d s e])
  qed
qed

lemma stores_in_byte_loop:
  "stores_in hi m m1 \<Longrightarrow> 0 \<le> d \<Longrightarrow> e \<le> hi \<Longrightarrow> stores_in hi m (byte_loop m1 d s e)"
proof (induction m1 d s e rule: byte_loop.induct)
  case (1 m1 d s e)
  show ?case
  proof (cases "d < e")
    case True
    have "stores_in hi m (poke m1 d (cells m1 s))"
      using "1.prems" True by (auto simp: stores_in_def)
    from "1.IH"[OF True this] "1.prems" True
    have "stores_in hi m (byte_loop (poke m1 d (cells m1 s)) (d + 1) (s + 1) e)" by simp
    with True show ?thesis
      by (subst byte_loop.simps) simp
  next
    case False
    with "1.prems" show ?thesis by (subst byte_loop.simps) simp
  qed
qed

lemma stores_in_copy_loop:
  "stores_in hi m m1 \<Longrightarrow> length v = 8 \<Longrightarrow> 0 \<le> d \<Longrightarrow> d + 8 \<le> hi \<Longrightarrow> e + 7 \<le> hi \<Longrightarrow>
     stores_in hi m (copy_loop m1 d e v)"
proof (induction m1 d e v rule: copy_loop.induct)
  case (1 m1 d e v)
  have a: "stores_in hi m (poke_block m1 d v)"
    using "1.prems" by (auto simp: stores_in_def)
  show ?case
  proof (cases "d + 8 < e")
    case True
    from "1.IH"[OF refl True a] "1.prems" True
    have "stores_in hi m (copy_loop (poke_block m1 d v) (d + 8) e v)" by simp
    with True show ?thesis by (subst copy_loop.simps) (simp add: Let_def)
  next
    case False
    with a show ?thesis by (subst copy_loop.simps) (simp add: Let_def)
  qed
qed

lemma written_first8:
  "first8 m d s offset = (m', s') \<Longrightarrow> written m' = written m \<union> {d ..< d + 8}"
  by (auto simp: first8_def Let_def split: if_splits)

lemma stores_in_first8:
  "first8 m1 d s offset = (m', s') \<Longrightarrow> stores_in hi m m1 \<Longrightarrow> 0 \<le> d \<Longrightarrow> d + 8 \<le> hi \<Longrightarrow>
     stores_in hi m m'"
  by (rule stores_in_union[where a=d and b="d + 8" and ?m1.0=m1]) (simp_all add: written_first8)

lemma stores_in_memcpy_using_offset:
  assumes "stores_in hi m m1" "0 \<le> d" "d + 16 \<le> hi" "e + 7 \<le> hi"
  shows "stores_in hi m (LZ4_memcpy_using_offset m1 d s e offset)"
proof -
  obtain m2 s2 where f: "first8 m1 d s offset = (m2, s2)" by (cases "first8 m1 d s offset")
  have "stores_in hi m m2" using assms by (intro stores_in_first8[OF f]) simp_all
  then have "stores_in hi m (LZ4_wildCopy8 m2 (d + 8) s2 e)"
    using assms by (intro stores_in_wildCopy8) simp_all
  with f have "stores_in hi m (LZ4_memcpy_using_offset_base m1 d s e offset)"
    by (simp add: LZ4_memcpy_using_offset_base_def)
  moreover have "stores_in hi m (copy_loop m1 d e v)" if "length v = 8" for v
    using assms that by (intro stores_in_copy_loop) simp_all
  ultimately show ?thesis
    by (simp add: LZ4_memcpy_using_offset_def Let_def peek_block_def)
qed

text \<open>The stores of one pass of the safe decoder in full mode. \<open>m\<close> is any earlier
  memory whose later stores were inside the output.\<close>

lemma match_near_end_stores:
  assumes "stores_in (oend p) m m1" "0 \<le> op1"
  shows "stores_in (oend p) m (mem (ctl_state (match_near_end p st m1 op1 match1 cpy)))"
proof -
  have a: "stores_in (oend p) m (LZ4_wildCopy8 m1 op1 match1 (oend p - 7))" if "op1 < oend p - 7"
    using assms that by (intro stores_in_wildCopy8) simp_all
  have b: "stores_in (oend p) m
      (byte_loop (LZ4_wildCopy8 m1 op1 match1 (oend p - 7)) (oend p - 7) s cpy)"
    if "op1 < oend p - 7" "cpy \<le> oend p" for s
    using a assms that by (intro stores_in_byte_loop) simp_all
  have c: "stores_in (oend p) m (byte_loop m1 op1 match1 cpy)" if "cpy \<le> oend p"
    using assms that by (intro stores_in_byte_loop) simp_all
  show ?thesis
    using assms(1) b c by (simp add: match_near_end_def Let_def)
qed

lemma full_match_copy_stores:
  assumes "stores_in (oend p) m (mem st)" "0 \<le> op st" "op st + 8 \<le> oend p" "4 \<le> len"
  shows "stores_in (oend p) m (mem (ctl_state (full_match_copy p st offset match len)))"
proof -
  obtain m1 match1 where f: "first8 (mem st) (op st) match offset = (m1, match1)"
    by (cases "first8 (mem st) (op st) match offset")
  have m1: "stores_in (oend p) m m1"
    using assms by (intro stores_in_first8[OF f]) simp_all
  have near: "stores_in (oend p) m
      (mem (ctl_state (match_near_end p st m1 (op st + 8) match1 (op st + len))))"
    using m1 assms by (intro match_near_end_stores) simp_all
  have m2: "stores_in (oend p) m (memcpy m1 (op st + 8) match1 8)"
    if "op st + len \<le> oend p - 12"
    using m1 assms that by (intro stores_in_memcpy) simp_all
  have m3: "stores_in (oend p) m
      (LZ4_wildCopy8 (memcpy m1 (op st + 8) match1 8) (op st + 8 + 8) (match1 + 8) (op st + len))"
    if "op st + len \<le> oend p - 12" "16 < len"
    using m2 assms that by (intro stores_in_wildCopy8) simp_all
  show ?thesis
    using f near m2 m3 by (simp add: full_match_copy_def Let_def)
qed

lemma safe_match_copy_stores:
  "\<not> partial p \<Longrightarrow> stores_in (oend p) m (mem st) \<Longrightarrow> 0 \<le> op st \<Longrightarrow> op st + 8 \<le> oend p \<Longrightarrow>
     4 \<le> len \<Longrightarrow> stores_in (oend p) m (mem (ctl_state (safe_match_copy p st offset match len)))"
  by (simp add: safe_match_copy_def full_match_copy_stores)

lemma match_length_stores:
  assumes "\<not> partial p" "stores_in (oend p) m (mem st)" "0 \<le> op st" "op st + 8 \<le> oend p" "0 \<le> len"
  shows "stores_in (oend p) m (mem (ctl_state (match_length p src st offset match len)))"
proof -
  have "stores_in (oend p) m
      (mem (ctl_state (safe_match_copy p (st\<lparr>ip := i\<rparr>) offset match (len + n + 4))))"
    if "0 \<le> n" for i n
    using assms that by (intro safe_match_copy_stores) simp_all
  moreover have "stores_in (oend p) m (mem (ctl_state (safe_match_copy p st offset match (len + 4))))"
    using assms by (intro safe_match_copy_stores) simp_all
  ultimately show ?thesis
    using assms(2)
    by (auto simp: match_length_def split: option.split dest: read_variable_length_mono)
qed

lemma copy_match_stores:
  "\<not> partial p \<Longrightarrow> stores_in (oend p) m (mem st) \<Longrightarrow> 0 \<le> op st \<Longrightarrow> op st + 8 \<le> oend p \<Longrightarrow>
     0 \<le> len \<Longrightarrow> stores_in (oend p) m (mem (ctl_state (copy_match p src st offset match len)))"
  by (simp add: copy_match_def match_length_stores)

lemma get_offset_stores:
  assumes "\<not> partial p" "stores_in (oend p) m (mem st)" "0 \<le> op st" "op st + 8 \<le> oend p"
    "0 \<le> token"
  shows "stores_in (oend p) m (mem (ctl_state (get_offset p src st token)))"
proof -
  have "stores_in (oend p) m
      (mem (ctl_state (copy_match p src (st\<lparr>ip := ip st + 2\<rparr>) offset match (token AND 15))))"
    for offset match
    using assms by (intro copy_match_stores) simp_all
  with assms(2) show ?thesis
    by (simp add: get_offset_def split: option.split)
qed

lemma literal_tail_stores:
  assumes "on_input p" "\<not> partial p" "stores_in (oend p) m (mem st)" "0 \<le> op st" "0 \<le> len"
    "cpy = op st + len"
  shows "stores_in (oend p) m (mem (ctl_state (literal_tail p src st token len cpy)))"
proof -
  have "stores_in (oend p) m m'"
    if "memcpy_in src (mem st) (op st) (ip st) (nat len) = Some m'" "cpy \<le> oend p" for m'
    using assms that by (intro stores_in_memcpy_in[OF that(1)]) simp_all
  with assms show ?thesis
    by (auto simp: literal_tail_def split: option.split)
qed

lemma literal_wild_stores:
  assumes "\<not> partial p" "stores_in (oend p) m (mem st)" "0 \<le> op st" "0 \<le> len"
    "cpy = op st + len" "cpy + 12 \<le> oend p" "0 \<le> token"
  shows "stores_in (oend p) m (mem (ctl_state (literal_wild p src st token len cpy)))"
proof (cases "LZ4_wildCopy8_in src (mem st) (op st) (ip st) cpy")
  case None
  with assms(2) show ?thesis by (simp add: literal_wild_def)
next
  case (Some m')
  have "stores_in (oend p) m m'"
    using assms by (intro stores_in_wildCopy8_in[OF Some]) simp_all
  then have "stores_in (oend p) m
      (mem (ctl_state (get_offset p src (st\<lparr>ip := ip st + len, op := cpy, mem := m'\<rparr>) token)))"
    using assms by (intro get_offset_stores) simp_all
  with Some show ?thesis by (simp add: literal_wild_def)
qed

lemma safe_literal_copy_stores:
  assumes "on_input p" "\<not> partial p" "stores_in (oend p) m (mem st)" "0 \<le> op st" "0 \<le> len"
    "cpy = op st + len" "0 \<le> token"
  shows "stores_in (oend p) m (mem (ctl_state (safe_literal_copy p src st token len cpy)))"
proof -
  have "stores_in (oend p) m (mem (ctl_state (literal_wild p src st token len cpy)))"
    if "cpy \<le> oend p - 12"
    using assms that by (intro literal_wild_stores) simp_all
  moreover have "stores_in (oend p) m (mem (ctl_state (literal_tail p src st token len cpy)))"
    using assms by (intro literal_tail_stores) simp_all
  ultimately show ?thesis
    using assms(1,2) by (simp add: safe_literal_copy_def)
qed

lemma literal_length_stores:
  assumes "on_input p" "\<not> partial p" "stores_in (oend p) m (mem st)" "0 \<le> op st" "0 \<le> len"
    "0 \<le> token"
  shows "stores_in (oend p) m (mem (ctl_state (literal_length p src st token len)))"
proof -
  have "stores_in (oend p) m (mem (ctl_state
      (safe_literal_copy p src (st\<lparr>ip := i\<rparr>) token (len + n) (op st + (len + n)))))"
    if "0 \<le> n" for i n
    using assms that by (intro safe_literal_copy_stores) simp_all
  moreover have "stores_in (oend p) m (mem (ctl_state
      (safe_literal_copy p src st token len (op st + len))))"
    using assms by (intro safe_literal_copy_stores) simp_all
  ultimately show ?thesis
    using assms(3)
    by (auto simp: literal_length_def split: option.split dest: read_variable_length_mono)
qed

lemma shortcut_match_stores:
  assumes "\<not> partial p" "stores_in (oend p) m (mem st)" "0 \<le> op st" "op st + 18 \<le> oend p"
    "0 \<le> token"
  shows "stores_in (oend p) m (mem (ctl_state (shortcut_match p src st token)))"
proof -
  have a: "stores_in (oend p) m
      (mem (ctl_state (copy_match p src (st\<lparr>ip := ip st + 2\<rparr>) offset match (token AND 15))))"
    for offset match
    using assms by (intro copy_match_stores) simp_all
  have b: "stores_in (oend p) m
      (memcpy (memcpy (memcpy (mem st) (op st) match 8) (op st + 8) (match + 8) 8)
         (op st + 16) (match + 16) 2)" for match
    using assms by (intro stores_in_memcpy) simp_all
  from a b assms(2) show ?thesis
    by (simp add: shortcut_match_def Let_def split: option.split)
qed

lemma shortcut_stores:
  assumes "on_input p" "\<not> partial p" "stores_in (oend p) m (mem st)" "0 \<le> op st"
    "shortcut_cond p len (ip st) (op st)" "0 \<le> len" "len \<le> 15" "0 \<le> token"
  shows "stores_in (oend p) m (mem (ctl_state (shortcut p src st token len)))"
proof (cases "memcpy_in src (mem st) (op st) (ip st) 16")
  case None
  with assms(1,3) show ?thesis by (simp add: shortcut_def)
next
  case (Some m')
  from assms have b: "op st + 32 \<le> oend p" "len \<le> 14"
    by (auto simp: shortcut_cond_def shortoend_def)
  have "stores_in (oend p) m m'"
    using assms b by (intro stores_in_memcpy_in[OF Some]) simp_all
  then have "stores_in (oend p) m (mem (ctl_state
      (shortcut_match p src (st\<lparr>ip := ip st + len, op := op st + len, mem := m'\<rparr>) token)))"
    using assms b by (intro shortcut_match_stores) simp_all
  with Some assms(1) show ?thesis by (simp add: shortcut_def)
qed

lemma safe_iter_stores:
  assumes "on_input p" "\<not> partial p" "stores_in (oend p) m (mem st)" "0 \<le> op st"
  shows "stores_in (oend p) m (mem (ctl_state (safe_iter p src st)))"
proof (cases "src_byte src (ip st)")
  case None
  with assms(3) show ?thesis by (simp add: safe_iter_def)
next
  case (Some t)
  note tb = token_seed_bounds[of t]
  have u: "0 \<le> uint t" by simp
  have "stores_in (oend p) m (mem (ctl_state
      (shortcut p src (st\<lparr>ip := ip st + 1\<rparr>) (uint t) (drop_bit ML_BITS (uint t)))))"
    if "shortcut_cond p (drop_bit ML_BITS (uint t)) (ip st + 1) (op st)"
    using assms tb u that by (intro shortcut_stores) simp_all
  moreover have "stores_in (oend p) m (mem (ctl_state
      (literal_length p src (st\<lparr>ip := ip st + 1\<rparr>) (uint t) (drop_bit ML_BITS (uint t)))))"
    using assms tb u by (intro literal_length_stores) simp_all
  ultimately show ?thesis
    using Some by (simp add: safe_iter_def Let_def)
qed

text \<open>The stores of one pass of the fast loop, for the safe decoder in full mode.\<close>

lemma fast_match_copy_stores:
  assumes "stores_in (oend p) m (mem st)" "0 \<le> op st" "4 \<le> len" "op st + len < oend p - 64"
  shows "stores_in (oend p) m (mem (fctl_state (fast_match_copy p st offset match len)))"
proof -
  have "stores_in (oend p) m (LZ4_memcpy_using_offset (mem st) (op st) match (op st + len) offset)"
    using assms by (intro stores_in_memcpy_using_offset) simp_all
  moreover have "stores_in (oend p) m (LZ4_wildCopy32 (mem st) (op st) match (op st + len))"
    using assms by (intro stores_in_wildCopy32) simp_all
  ultimately show ?thesis by (simp add: fast_match_copy_def Let_def)
qed

lemma fast_match_dispatch_stores:
  assumes "\<not> partial p" "stores_in (oend p) m (mem st)" "0 \<le> op st" "op st + 32 \<le> oend p"
    "4 \<le> len"
  shows "stores_in (oend p) m (mem (fctl_state (fast_match_dispatch p st short offset match len)))"
proof -
  have "stores_in (oend p) m (mem (ctl_state (safe_match_copy p st offset match len)))"
    using assms by (intro safe_match_copy_stores) simp_all
  moreover have "stores_in (oend p) m
      (memcpy (memcpy (memcpy (mem st) (op st) match 8) (op st + 8) (match + 8) 8)
         (op st + 16) (match + 16) 2)"
    using assms by (intro stores_in_memcpy) simp_all
  moreover have "stores_in (oend p) m (mem (fctl_state (fast_match_copy p st offset match len)))"
    if "op st + len < oend p - 64"
    using assms that by (intro fast_match_copy_stores) simp_all
  ultimately show ?thesis by (simp add: fast_match_dispatch_def)
qed

lemma fast_match_length_stores:
  assumes "\<not> partial p" "stores_in (oend p) m (mem st)" "0 \<le> op st" "op st + 32 \<le> oend p"
    "0 \<le> len"
  shows "stores_in (oend p) m (mem (fctl_state (fast_match_length p src st offset match len)))"
proof -
  have "stores_in (oend p) m (mem (fctl_state
      (fast_match_dispatch p (st\<lparr>ip := i\<rparr>) False offset match (len + n + 4))))"
    if "0 \<le> n" for i n
    using assms that by (intro fast_match_dispatch_stores) simp_all
  moreover have "stores_in (oend p) m (mem (fctl_state
      (fast_match_dispatch p st True offset match (len + 4))))"
    using assms by (intro fast_match_dispatch_stores) simp_all
  ultimately show ?thesis
    using assms(2)
    by (auto simp: fast_match_length_def split: option.split dest: read_variable_length_mono)
qed

lemma fast_get_offset_stores:
  assumes "\<not> partial p" "stores_in (oend p) m (mem st)" "0 \<le> op st" "op st + 32 \<le> oend p"
    "0 \<le> token"
  shows "stores_in (oend p) m (mem (fctl_state (fast_get_offset p src st token)))"
proof -
  have "stores_in (oend p) m (mem (fctl_state
      (fast_match_length p src (st\<lparr>ip := ip st + 2\<rparr>) offset match (token AND 15))))"
    for offset match
    using assms by (intro fast_match_length_stores) simp_all
  with assms(2) show ?thesis
    by (simp add: fast_get_offset_def split: option.split)
qed

lemma fast_long_literals_stores:
  assumes "on_input p" "\<not> partial p" "stores_in (oend p) m (mem st)" "0 \<le> op st" "0 \<le> len"
    "0 \<le> token"
  shows "stores_in (oend p) m (mem (fctl_state (fast_long_literals p src st token len)))"
proof -
  have a: "stores_in (oend p) m (mem (ctl_state
      (safe_literal_copy p src st token len (op st + len))))"
    using assms by (intro safe_literal_copy_stores) simp_all
  have b: "stores_in (oend p) m (mem (fctl_state
      (fast_get_offset p src (st\<lparr>ip := ip st + len, op := op st + len, mem := m'\<rparr>) token)))"
    if "LZ4_wildCopy32_in src (mem st) (op st) (ip st) (op st + len) = Some m'"
      "op st + len \<le> oend p - 32" for m'
  proof -
    have "stores_in (oend p) m m'"
      using assms that by (intro stores_in_wildCopy32_in[OF that(1)]) simp_all
    then show ?thesis
      using assms that by (intro fast_get_offset_stores) simp_all
  qed
  from a b assms(1,3) show ?thesis
    by (auto simp: fast_long_literals_def Let_def split: option.split)
qed

lemma fast_short_literals_stores:
  assumes "on_input p" "\<not> partial p" "stores_in (oend p) m (mem st)" "0 \<le> op st"
    "op st + 64 \<le> oend p" "0 \<le> len" "len \<le> 15" "0 \<le> token"
  shows "stores_in (oend p) m (mem (fctl_state (fast_short_literals p src st token len)))"
proof -
  have a: "stores_in (oend p) m (mem (ctl_state
      (safe_literal_copy p src st token len (op st + len))))"
    using assms by (intro safe_literal_copy_stores) simp_all
  have b: "stores_in (oend p) m (mem (fctl_state
      (fast_get_offset p src (st\<lparr>ip := ip st + len, op := op st + len, mem := m'\<rparr>) token)))"
    if "memcpy_in src (mem st) (op st) (ip st) 16 = Some m'" for m'
  proof -
    have "stores_in (oend p) m m'"
      using assms by (intro stores_in_memcpy_in[OF that]) simp_all
    then show ?thesis
      using assms by (intro fast_get_offset_stores) simp_all
  qed
  from a b assms(1,3) show ?thesis
    by (auto simp: fast_short_literals_def Let_def split: option.split)
qed

lemma fast_literal_length_stores:
  assumes "on_input p" "\<not> partial p" "stores_in (oend p) m (mem st)" "0 \<le> op st" "0 \<le> len"
    "0 \<le> token"
  shows "stores_in (oend p) m (mem (fctl_state (fast_literal_length p src st token len)))"
proof -
  have "stores_in (oend p) m (mem (fctl_state
      (fast_long_literals p src (st\<lparr>ip := i\<rparr>) token (len + n))))"
    if "0 \<le> n" for i n
    using assms that by (intro fast_long_literals_stores) simp_all
  then show ?thesis
    using assms(3)
    by (auto simp: fast_literal_length_def split: option.split dest: read_variable_length_mono)
qed

lemma fast_iter_stores:
  assumes "on_input p" "\<not> partial p" "stores_in (oend p) m (mem st)" "0 \<le> op st"
    "op st + 64 \<le> oend p"
  shows "stores_in (oend p) m (mem (fctl_state (fast_iter p src st)))"
proof (cases "src_byte src (ip st)")
  case None
  with assms(3) show ?thesis by (simp add: fast_iter_def)
next
  case (Some t)
  note tb = token_seed_bounds[of t]
  have u: "0 \<le> uint t" by simp
  have "stores_in (oend p) m (mem (fctl_state
      (fast_literal_length p src (st\<lparr>ip := ip st + 1\<rparr>) (uint t) (drop_bit ML_BITS (uint t)))))"
    using assms tb u by (intro fast_literal_length_stores) simp_all
  moreover have "stores_in (oend p) m (mem (fctl_state
      (fast_short_literals p src (st\<lparr>ip := ip st + 1\<rparr>) (uint t) (drop_bit ML_BITS (uint t)))))"
    using assms tb u by (intro fast_short_literals_stores) simp_all
  ultimately show ?thesis
    using Some by (cases "drop_bit ML_BITS (uint t) = 15") (simp_all add: fast_iter_def Let_def)
qed

text \<open>The stores of the loops.\<close>

lemma safe_loop_stores:
  "on_input p \<Longrightarrow> \<not> partial p \<Longrightarrow> stores_in (oend p) m (mem st) \<Longrightarrow> 0 \<le> op st \<Longrightarrow>
     stores_in (oend p) m (mem (exit_state (safe_loop p src st)))"
proof (induction p src st rule: safe_loop.induct)
  case (1 p src st)
  note w = safe_iter_stores[OF "1.prems", of src]
  have "op_inv p st" using "1.prems" by (simp add: op_inv_def)
  note ok = safe_iter_ok[OF this, of src]
  show ?case
  proof (cases "safe_iter p src st")
    case (Continue st')
    with ok "1.prems" have "0 \<le> op st'" by simp
    from "1.IH"[OF Continue "1.prems"(1,2) _ this] w Continue show ?thesis
      by (simp add: safe_loop.simps[of p src st])
  next
    case (Break st')
    with w show ?thesis by (simp add: safe_loop.simps[of p src st])
  next
    case (OutputError st')
    with w show ?thesis by (simp add: safe_loop.simps[of p src st])
  next
    case (Fault st')
    with w show ?thesis by (simp add: safe_loop.simps[of p src st])
  qed
qed

lemma fast_loop_stores:
  "on_input p \<Longrightarrow> \<not> partial p \<Longrightarrow> stores_in (oend p) m (mem st) \<Longrightarrow> 0 \<le> op st \<Longrightarrow>
     op st + 64 \<le> oend p \<Longrightarrow> stores_in (oend p) m (mem (exit_state (fast_loop p src st)))"
proof (induction p src st rule: fast_loop.induct)
  case (1 p src st)
  note w = fast_iter_stores[OF "1.prems", of src]
  have "op_inv p st" using "1.prems" by (simp add: op_inv_def)
  note ok = fast_iter_ok[OF this "1.prems"(5), of src]
  show ?case
  proof (cases "fast_iter p src st")
    case (FastContinue st')
    with ok "1.prems" have "0 \<le> op st'" "op st' + 64 \<le> oend p" by simp_all
    from "1.IH"[OF FastContinue "1.prems"(1,2) _ this] w FastContinue show ?thesis
      by (simp add: fast_loop.simps[of p src st])
  next
    case (Safe c)
    show ?thesis
    proof (cases c)
      case (Continue st')
      with ok Safe "1.prems" have "0 \<le> op st'" by simp
      from safe_loop_stores[OF "1.prems"(1,2) _ this, of m src] w Safe Continue show ?thesis
        by (simp add: fast_loop.simps[of p src st])
    next
      case (Break st')
      with w Safe show ?thesis by (simp add: fast_loop.simps[of p src st])
    next
      case (OutputError st')
      with w Safe show ?thesis by (simp add: fast_loop.simps[of p src st])
    next
      case (Fault st')
      with w Safe show ?thesis by (simp add: fast_loop.simps[of p src st])
    qed
  qed
qed

lemma decode_loops_stores:
  "on_input p \<Longrightarrow> \<not> partial p \<Longrightarrow> stores_in (oend p) m (mem st) \<Longrightarrow> 0 \<le> op st \<Longrightarrow>
     stores_in (oend p) m (mem (exit_state (decode_loops p src st)))"
  by (simp add: decode_loops_def safe_loop_stores fast_loop_stores)

lemma result_state_end_of_decoding [simp]:
  "result_state (end_of_decoding p x) = exit_state x"
  by (cases x) (simp_all add: end_of_decoding_def)

lemma generic_stores:
  "on_input p \<Longrightarrow> \<not> partial p \<Longrightarrow>
     stores_in (oend p) m (mem (result_state (LZ4_decompress_generic p src m)))"
proof -
  assume a: "on_input p" "\<not> partial p"
  have "stores_in (oend p) m (mem (exit_state (decode_loops p src \<lparr>ip = 0, op = 0, mem = m\<rparr>)))"
    using a by (intro decode_loops_stores) simp_all
  then show ?thesis
    by (auto simp: LZ4_decompress_generic_def Let_def split: option.split)
qed

section \<open>No wild writes\<close>

text \<open>Claim C1. For every input buffer, every value of the two size arguments, either
  build and every initial output memory, each byte that \<^verbatim>\<open>LZ4_decompress_safe\<close> stores
  before it returns (or before it reads outside its input) is at an address
  \<open>dest + i\<close> with \<open>0 \<le> i < maxDecompressedSize\<close>: the stores recorded at the end are
  those recorded before the call and addresses inside the output region.\<close>

theorem no_wild_writes:
  "written (mem (result_state
      (LZ4_decompress_safe fdl source_addr dest_addr source dest compressedSize maxDecompressedSize)))
     \<subseteq> written dest \<union> {0 ..< sint maxDecompressedSize}"
  using generic_stores[of "\<lparr>srcSize = compressedSize, outputSize = maxDecompressedSize,
        endOnInput = endOnInputSize, partialDecoding = decode_full_block, dict = noDict,
        lowPrefix = 0, dictSize = 0,
        src_addr = source_addr, dst_addr = dest_addr, fast_dec_loop = fdl\<rparr>" dest source]
  by (simp add: LZ4_decompress_safe_def stores_in_def on_input_def partial_def oend_def)

section \<open>Overlapping match copies with offset 1\<close>

text \<open>All bytes of \<open>m\<close> from \<open>lo\<close> up to, but not including, \<open>hi\<close> are \<open>b\<close>.\<close>

definition run_of :: "memory \<Rightarrow> int \<Rightarrow> int \<Rightarrow> byte \<Rightarrow> bool" where
  "run_of m lo hi b = (\<forall>i. lo \<le> i \<and> i < hi \<longrightarrow> cells m i = b)"

lemma cells_poke_block:
  "cells (poke_block m a bs) i
     = (if a \<le> i \<and> i < a + int (length bs) then bs ! nat (i - a) else cells m i)"
  by (simp add: poke_block_def)

lemma cells_poke: "cells (poke m a v) i = (if i = a then v else cells m i)"
  by (auto simp: poke_def poke_block_def)

lemma cells_memcpy:
  "cells (memcpy m d s n) i
     = (if d \<le> i \<and> i < d + int n then cells m (s + (i - d)) else cells m i)"
  by (auto simp: memcpy_def peek_block_def poke_block_def nat_less_iff)

lemma run_of_memcpy:
  "run_of m lo hi b \<Longrightarrow> lo \<le> s \<Longrightarrow> s + int n \<le> hi \<Longrightarrow> lo \<le> d \<Longrightarrow> d \<le> hi \<Longrightarrow>
     run_of (memcpy m d s n) lo (max hi (d + int n)) b"
  by (auto simp: run_of_def cells_memcpy)

lemma run_of_poke:
  "run_of m lo hi b \<Longrightarrow> lo \<le> d \<Longrightarrow> d \<le> hi \<Longrightarrow> run_of (poke m d b) lo (max hi (d + 1)) b"
  by (auto simp: run_of_def cells_poke)

lemma run_of_shrink: "run_of m lo hi b \<Longrightarrow> lo \<le> lo' \<Longrightarrow> hi' \<le> hi \<Longrightarrow> run_of m lo' hi' b"
  by (auto simp: run_of_def)

lemma run_of_wildCopy8:
  "run_of m lo hi b \<Longrightarrow> lo \<le> s \<Longrightarrow> s + 8 \<le> d \<Longrightarrow> d \<le> hi \<Longrightarrow>
     run_of (LZ4_wildCopy8 m d s e) lo (max hi (max (d + 8) e)) b"
proof (induction m d s e arbitrary: hi rule: LZ4_wildCopy8.induct)
  case (1 m d s e)
  have a: "run_of (memcpy m d s 8) lo (max hi (d + 8)) b"
    using run_of_memcpy[OF "1.prems"(1), of s 8 d] "1.prems" by simp
  show ?case
  proof (cases "d + 8 < e")
    case True
    from "1.IH"[OF refl True a] "1.prems" True
    have "run_of (LZ4_wildCopy8 (memcpy m d s 8) (d + 8) (s + 8) e) lo
            (max (max hi (d + 8)) (max (d + 8 + 8) e)) b" by simp
    then have "run_of (LZ4_wildCopy8 (memcpy m d s 8) (d + 8) (s + 8) e) lo
            (max hi (max (d + 8) e)) b"
      by (rule run_of_shrink) (use True in \<open>simp_all add: max_def\<close>)
    with True show ?thesis by (subst LZ4_wildCopy8.simps) (simp add: Let_def)
  next
    case False
    from a have "run_of (memcpy m d s 8) lo (max hi (max (d + 8) e)) b"
      by (rule run_of_shrink) (use False in \<open>simp_all add: max_def\<close>)
    with False show ?thesis by (subst LZ4_wildCopy8.simps) (simp add: Let_def)
  qed
qed

lemma run_of_byte_loop:
  "run_of m lo hi b \<Longrightarrow> lo \<le> s \<Longrightarrow> s < d \<Longrightarrow> d \<le> hi \<Longrightarrow>
     run_of (byte_loop m d s e) lo (max hi e) b"
proof (induction m d s e arbitrary: hi rule: byte_loop.induct)
  case (1 m d s e)
  show ?case
  proof (cases "d < e")
    case True
    from "1.prems" have "cells m s = b" by (simp add: run_of_def)
    with run_of_poke[OF "1.prems"(1), of d] "1.prems"
    have a: "run_of (poke m d (cells m s)) lo (max hi (d + 1)) b" by simp
    from "1.IH"[OF True a] "1.prems"
    have "run_of (byte_loop (poke m d (cells m s)) (d + 1) (s + 1) e) lo (max (max hi (d + 1)) e) b"
      by simp
    then have "run_of (byte_loop (poke m d (cells m s)) (d + 1) (s + 1) e) lo (max hi e) b"
      by (rule run_of_shrink) (use True in \<open>simp_all add: max_def\<close>)
    with True show ?thesis by (subst byte_loop.simps) simp
  next
    case False
    from "1.prems"(1) have "run_of m lo (max hi e) b"
      by (rule run_of_shrink) (use False "1.prems" in \<open>simp_all add: max_def\<close>)
    with False show ?thesis by (subst byte_loop.simps) simp
  qed
qed

lemma run_of_poke_block_replicate:
  "run_of m lo hi b \<Longrightarrow> lo \<le> d \<Longrightarrow> d \<le> hi \<Longrightarrow>
     run_of (poke_block m d (replicate n b)) lo (max hi (d + int n)) b"
  by (auto simp: run_of_def cells_poke_block)

lemma run_of_copy_loop:
  "run_of m lo hi b \<Longrightarrow> lo \<le> d \<Longrightarrow> d \<le> hi \<Longrightarrow>
     run_of (copy_loop m d e (replicate 8 b)) lo (max hi (max (d + 8) e)) b"
proof (induction m d e "replicate 8 b" arbitrary: hi rule: copy_loop.induct)
  case (1 m d e)
  have a: "run_of (poke_block m d (replicate 8 b)) lo (max hi (d + 8)) b"
    using run_of_poke_block_replicate[OF "1.prems", of 8] by simp
  show ?case
  proof (cases "d + 8 < e")
    case True
    from "1.hyps"[OF refl True a] "1.prems" True
    have "run_of (copy_loop (poke_block m d (replicate 8 b)) (d + 8) e (replicate 8 b)) lo
            (max (max hi (d + 8)) (max (d + 8 + 8) e)) b" by simp
    then have "run_of (copy_loop (poke_block m d (replicate 8 b)) (d + 8) e (replicate 8 b)) lo
            (max hi (max (d + 8) e)) b"
      by (rule run_of_shrink) (use True in \<open>simp_all add: max_def\<close>)
    with True show ?thesis by (subst copy_loop.simps) (simp add: Let_def)
  next
    case False
    from a have "run_of (poke_block m d (replicate 8 b)) lo (max hi (max (d + 8) e)) b"
      by (rule run_of_shrink) (use False in \<open>simp_all add: max_def\<close>)
    with False show ?thesis by (subst copy_loop.simps) (simp add: Let_def)
  qed
qed

text \<open>With offset 1 the first eight bytes repeat the byte before \<open>d\<close>, and the source
  pointer ends at \<open>d\<close>, eight bytes before the next store.\<close>

lemma first8_offset_1:
  "first8 m d (d - 1) 1 = (m', s') \<Longrightarrow> s' = d \<and> run_of m' d (d + 8) (cells m (d - 1))"
  by (auto simp: first8_def Let_def inc32table_def dec64table_def run_of_def cells_poke cells_memcpy)


lemma run_of_memcpy_to:
  assumes "run_of m lo hi b" "lo \<le> s" "s + int n \<le> hi" "lo \<le> d" "d \<le> hi"
    "hi' \<le> hi \<or> hi' \<le> d + int n"
  shows "run_of (memcpy m d s n) lo hi' b"
proof -
  from assms(6) have "hi' \<le> max hi (d + int n)" by (simp add: le_max_iff_disj)
  with run_of_memcpy[OF assms(1-5)] show ?thesis by (auto simp: run_of_def)
qed

lemma run_of_wildCopy8_to:
  assumes "run_of m lo hi b" "lo \<le> s" "s + 8 \<le> d" "d \<le> hi"
    "hi' \<le> hi \<or> hi' \<le> d + 8 \<or> hi' \<le> e"
  shows "run_of (LZ4_wildCopy8 m d s e) lo hi' b"
proof -
  from assms(5) have "hi' \<le> max hi (max (d + 8) e)" by (simp add: le_max_iff_disj)
  with run_of_wildCopy8[OF assms(1-4)] show ?thesis by (auto simp: run_of_def)
qed

lemma run_of_byte_loop_to:
  assumes "run_of m lo hi b" "lo \<le> s" "s < d" "d \<le> hi" "hi' \<le> hi \<or> hi' \<le> e"
  shows "run_of (byte_loop m d s e) lo hi' b"
proof -
  from assms(5) have "hi' \<le> max hi e" by (simp add: le_max_iff_disj)
  with run_of_byte_loop[OF assms(1-4)] show ?thesis by (auto simp: run_of_def)
qed

lemma run_of_copy_loop_to:
  assumes "run_of m lo hi b" "lo \<le> d" "d \<le> hi" "hi' \<le> hi \<or> hi' \<le> d + 8 \<or> hi' \<le> e"
  shows "run_of (copy_loop m d e (replicate 8 b)) lo hi' b"
proof -
  from assms(4) have "hi' \<le> max hi (max (d + 8) e)" by (simp add: le_max_iff_disj)
  with run_of_copy_loop[OF assms(1-3)] show ?thesis by (auto simp: run_of_def)
qed

lemma match_near_end_run:
  assumes "match_near_end p st m1 (d + 8) d cpy = Continue st'" "run_of m1 d (d + 8) b"
  shows "op st' = cpy \<and> run_of (mem st') d cpy b"
proof (cases "d + 8 < oend p - 7")
  case True
  have a: "run_of (LZ4_wildCopy8 m1 (d + 8) d (oend p - 7)) d (oend p - 7) b"
    by (rule run_of_wildCopy8_to[OF assms(2)]) simp_all
  have "run_of (byte_loop (LZ4_wildCopy8 m1 (d + 8) d (oend p - 7)) (oend p - 7)
            (d + (oend p - 7 - (d + 8))) cpy) d cpy b"
    by (rule run_of_byte_loop_to[OF a]) (use True in simp_all)
  with assms(1) True show ?thesis
    by (auto simp: match_near_end_def Let_def split: if_splits)
next
  case False
  have "run_of (byte_loop m1 (d + 8) d cpy) d cpy b"
    by (rule run_of_byte_loop_to[OF assms(2)]) simp_all
  with assms(1) False show ?thesis
    by (auto simp: match_near_end_def Let_def split: if_splits)
qed

lemma full_match_copy_run:
  assumes "full_match_copy p st 1 (op st - 1) N = Continue st'"
  shows "op st' = op st + N \<and> run_of (mem st') (op st) (op st + N) (cells (mem st) (op st - 1))"
proof -
  define d where "d = op st"
  define b where "b = cells (mem st) (op st - 1)"
  obtain m1 s1 where f: "first8 (mem st) d (d - 1) 1 = (m1, s1)"
    by (cases "first8 (mem st) d (d - 1) 1")
  from first8_offset_1[OF f] have s1: "s1 = d" and r1: "run_of m1 d (d + 8) b"
    by (simp_all add: b_def d_def)
  define m2 where "m2 = memcpy m1 (d + 8) d 8"
  define X where "X = st\<lparr>op := d + N,
      mem := (if N > 16 then LZ4_wildCopy8 m2 (d + 8 + 8) (d + 8) (d + N) else m2)\<rparr>"
  have eq: "full_match_copy p st 1 (op st - 1) N =
      (if d + N > oend p - 12 then match_near_end p st m1 (d + 8) d (d + N) else Continue X)"
    using f unfolding s1 X_def m2_def d_def by (simp add: full_match_copy_def Let_def)
  show ?thesis
  proof (cases "d + N > oend p - 12")
    case True
    with eq assms have "match_near_end p st m1 (d + 8) d (d + N) = Continue st'" by simp
    from match_near_end_run[OF this r1] show ?thesis by (simp add: d_def b_def)
  next
    case False
    have r2: "run_of m2 d (d + 8 + 8) b"
      unfolding m2_def by (rule run_of_memcpy_to[OF r1]) simp_all
    have r3: "run_of (LZ4_wildCopy8 m2 (d + 8 + 8) (d + 8) (d + N)) d (d + N) b"
      by (rule run_of_wildCopy8_to[OF r2]) simp_all
    have r2': "run_of m2 d (d + N) b" if "N \<le> 16"
      by (rule run_of_shrink[OF r2]) (use that in simp_all)
    have rX: "run_of (mem X) d (d + N) b"
    proof (cases "N > 16")
      case True
      with r3 show ?thesis by (simp add: X_def)
    next
      case False
      with r2' show ?thesis by (simp add: X_def)
    qed
    have oX: "op X = d + N" by (simp add: X_def)
    from eq False have "full_match_copy p st 1 (op st - 1) N = Continue X" by simp
    from trans[OF this[symmetric] assms] have "st' = X" by simp
    with rX oX show ?thesis by (simp add: d_def b_def)
  qed
qed

lemma run_of_single: "run_of m (d - 1) d (cells m (d - 1))"
  unfolding run_of_def
proof (intro allI impI)
  fix i
  assume "d - 1 \<le> i \<and> i < d"
  then have "i = d - 1" by linarith
  then show "cells m i = cells m (d - 1)" by (rule arg_cong)
qed

lemma partial_match_copy_run:
  assumes "0 \<le> op st" "op st \<le> oend p"
  shows "op (ctl_state (partial_match_copy p st (op st - 1) N)) = op st + min N (oend p - op st)
    \<and> run_of (mem (ctl_state (partial_match_copy p st (op st - 1) N))) (op st)
        (op st + min N (oend p - op st)) (cells (mem st) (op st - 1))"
proof -
  define n where "n = min N (oend p - op st)"
  define d where "d = op st"
  define b where "b = cells (mem st) (op st - 1)"
  define st' where "st' = st\<lparr>op := d + n,
      mem := (if 1 < n then byte_loop (mem st) d (d - 1) (d + n)
              else memcpy (mem st) d (d - 1) (nat n))\<rparr>"
  have eq: "partial_match_copy p st (op st - 1) N = (if d + n = oend p then Break st' else Continue st')"
    unfolding partial_match_copy_def st'_def n_def d_def using size_t_of_room[OF assms]
    by (simp add: Let_def)
  have r0: "run_of (mem st) (d - 1) d b" unfolding b_def d_def by (rule run_of_single)
  have "run_of (mem st') d (d + n) b"
  proof (cases "1 < n")
    case True
    have "run_of (byte_loop (mem st) d (d - 1) (d + n)) (d - 1) (d + n) b"
      by (rule run_of_byte_loop_to[OF r0]) simp_all
    then have "run_of (byte_loop (mem st) d (d - 1) (d + n)) d (d + n) b"
      by (rule run_of_shrink) simp_all
    with True show ?thesis by (simp add: st'_def)
  next
    case False
    have "run_of (memcpy (mem st) d (d - 1) (nat n)) (d - 1) (d + n) b"
      by (rule run_of_memcpy_to[OF r0]) (use False in auto)
    then have "run_of (memcpy (mem st) d (d - 1) (nat n)) d (d + n) b"
      by (rule run_of_shrink) simp_all
    with False show ?thesis by (simp add: st'_def)
  qed
  moreover have "op st' = d + n" by (simp add: st'_def)
  moreover have "ctl_state (partial_match_copy p st (op st - 1) N) = st'" by (simp add: eq)
  ultimately show ?thesis unfolding n_def d_def b_def by simp
qed


lemma fast_match_copy_run:
  assumes "fast_match_copy p st 1 (op st - 1) N = FastContinue st'"
  shows "op st' = op st + N \<and> run_of (mem st') (op st) (op st + N) (cells (mem st) (op st - 1))"
proof -
  define d where "d = op st"
  define b where "b = cells (mem st) (op st - 1)"
  define X where "X = st\<lparr>op := d + N, mem := copy_loop (mem st) d (d + N) (replicate 8 b)\<rparr>"
  have "run_of (mem st) d d b" by (auto simp: run_of_def)
  then have r: "run_of (copy_loop (mem st) d (d + N) (replicate 8 b)) d (d + N) b"
    by (rule run_of_copy_loop_to) simp_all
  have eq: "fast_match_copy p st 1 (op st - 1) N = FastContinue X"
    unfolding d_def b_def X_def
    by (simp add: fast_match_copy_def LZ4_memcpy_using_offset_def Let_def)
  from trans[OF eq[symmetric] assms] have "st' = X" by simp
  moreover have "op X = d + N" "mem X = copy_loop (mem st) d (d + N) (replicate 8 b)"
    by (simp_all add: X_def)
  ultimately show ?thesis using r unfolding d_def b_def by simp
qed

lemma run_of_peek_block:
  assumes "run_of m lo hi b" "lo \<le> a" "a + int n \<le> hi"
  shows "peek_block m a n = replicate n b"
proof (rule nth_equalityI)
  show "length (peek_block m a n) = length (replicate n b)" by (simp add: peek_block_def)
next
  fix k
  assume "k < length (peek_block m a n)"
  then have k: "k < n" by (simp add: peek_block_def)
  with assms(2,3) have "lo \<le> a + int k \<and> a + int k < hi" by linarith
  with assms(1) have "cells m (a + int k) = b" unfolding run_of_def by blast
  with k show "peek_block m a n ! k = replicate n b ! k" by (simp add: peek_block_def)
qed

text \<open>A state with one byte, \<open>A\<close>, already decoded.\<close>

definition one_byte_out :: dstate where
  "one_byte_out = \<lparr>ip = 4, op = 1, mem = poke zero_mem 0 65\<rparr>"

text \<open>Claim C7. A match copy with offset 1 and length \<open>N\<close> that starts at \<open>op\<close> and is
  carried out (by the main loop, lines 586--624, or by the fast loop through
  \<^verbatim>\<open>LZ4_memcpy_using_offset\<close>) leaves the \<open>N\<close> bytes \<open>op .. op + N - 1\<close> equal to the byte
  that was at \<open>op - 1\<close>, and \<open>op\<close> advanced by \<open>N\<close>. In partial decoding close to the end of
  the output (lines 567--584) the copy is cut to \<open>oend - op\<close> bytes, and the bytes it
  stores are again equal to the byte at \<open>op - 1\<close>.\<close>

theorem rle_offset_1:
  "(safe_match_copy p st 1 (op st - 1) N = Continue st'
      \<and> \<not> (partial p \<and> oend p - 12 < op st + N) \<longrightarrow>
    op st' = op st + N
    \<and> (\<forall>i. op st \<le> i \<and> i < op st + N \<longrightarrow> cells (mem st') i = cells (mem st) (op st - 1)))
   \<and> (partial p \<and> oend p - 12 < op st + N \<and> 0 \<le> op st \<and> op st \<le> oend p
      \<and> st' = ctl_state (safe_match_copy p st 1 (op st - 1) N) \<longrightarrow>
    op st' = op st + min N (oend p - op st)
    \<and> (\<forall>i. op st \<le> i \<and> i < op st' \<longrightarrow> cells (mem st') i = cells (mem st) (op st - 1)))
   \<and> (fast_match_dispatch p st short 1 (op st - 1) N = FastContinue st' \<longrightarrow>
    op st' = op st + N
    \<and> (\<forall>i. op st \<le> i \<and> i < op st + N \<longrightarrow> cells (mem st') i = cells (mem st) (op st - 1)))"
proof -
  have one: "op st' = op st + N
    \<and> (\<forall>i. op st \<le> i \<and> i < op st + N \<longrightarrow> cells (mem st') i = cells (mem st) (op st - 1))"
    if a: "safe_match_copy p st 1 (op st - 1) N = Continue st'
      \<and> \<not> (partial p \<and> oend p - 12 < op st + N)"
  proof -
    from a have n: "\<not> (partial p \<and> oend p - 12 < op st + N)"
      and c: "safe_match_copy p st 1 (op st - 1) N = Continue st'" by blast+
    from n have "safe_match_copy p st 1 (op st - 1) N = full_match_copy p st 1 (op st - 1) N"
      by (auto simp: safe_match_copy_def)
    from trans[OF this[symmetric] c] have "full_match_copy p st 1 (op st - 1) N = Continue st'" .
    from full_match_copy_run[OF this] show ?thesis by (simp add: run_of_def)
  qed
  have two: "op st' = op st + min N (oend p - op st)
    \<and> (\<forall>i. op st \<le> i \<and> i < op st' \<longrightarrow> cells (mem st') i = cells (mem st) (op st - 1))"
    if a: "partial p \<and> oend p - 12 < op st + N \<and> 0 \<le> op st \<and> op st \<le> oend p
      \<and> st' = ctl_state (safe_match_copy p st 1 (op st - 1) N)"
  proof -
    from a have n: "partial p \<and> oend p - 12 < op st + N"
      and c: "st' = ctl_state (safe_match_copy p st 1 (op st - 1) N)"
      and r: "0 \<le> op st" "op st \<le> oend p" by blast+
    from n have "safe_match_copy p st 1 (op st - 1) N = partial_match_copy p st (op st - 1) N"
      by (simp add: safe_match_copy_def)
    with c have s: "st' = ctl_state (partial_match_copy p st (op st - 1) N)" by (simp only:)
    note r
    from partial_match_copy_run[OF this, of N] show ?thesis
      unfolding s run_of_def by simp
  qed
  have three: "op st' = op st + N
    \<and> (\<forall>i. op st \<le> i \<and> i < op st + N \<longrightarrow> cells (mem st') i = cells (mem st) (op st - 1))"
    if a: "fast_match_dispatch p st short 1 (op st - 1) N = FastContinue st'"
  proof -
    have "fast_match_copy p st 1 (op st - 1) N = FastContinue st'"
    proof (cases "op st + N \<ge> oend p - 64")
      case True
      then have "fast_match_dispatch p st short 1 (op st - 1) N
          = Safe (safe_match_copy p st 1 (op st - 1) N)"
        by (simp add: fast_match_dispatch_def)
      from trans[OF this[symmetric] a] show ?thesis by simp
    next
      case False
      then have "fast_match_dispatch p st short 1 (op st - 1) N
          = fast_match_copy p st 1 (op st - 1) N"
        by (simp add: fast_match_dispatch_def)
      from trans[OF this[symmetric] a] show ?thesis .
    qed
    from fast_match_copy_run[OF this] show ?thesis by (simp add: run_of_def)
  qed
  from one two three show ?thesis by blast
qed

theorem rle_offset_1_witness:
  "(\<exists>st'. safe_match_copy (safe_params 17 29) one_byte_out 1 0 16 = Continue st'
      \<and> op st' = 17 \<and> peek_block (mem st') 1 16 = replicate 16 65)
   \<and> (op (ctl_state (safe_match_copy (partial_params 17 10) one_byte_out 1 0 16)) = 10
      \<and> peek_block (mem (ctl_state (safe_match_copy (partial_params 17 10) one_byte_out 1 0 16))) 1 9
          = replicate 9 65)
   \<and> (\<exists>st'. fast_match_dispatch (safe_params 17 128) one_byte_out True 1 0 16 = FastContinue st'
      \<and> op st' = 17 \<and> peek_block (mem st') 1 16 = replicate 16 65)"
proof -
  have b: "cells (mem one_byte_out) 0 = 65" "op one_byte_out = 1"
    by (simp_all add: one_byte_out_def poke_def poke_block_def)
  have c: "\<not> partial (safe_params 17 29)" "partial (partial_params 17 10)"
    "oend (partial_params 17 10) = 10" "oend (safe_params 17 128) = 128"
    by (simp_all add: safe_params_def partial_params_def partial_def oend_def)
  have "case safe_match_copy (safe_params 17 29) one_byte_out 1 0 16 of
          Continue st' \<Rightarrow> True | _ \<Rightarrow> False"
    by code_simp
  then obtain st1 where s1: "safe_match_copy (safe_params 17 29) one_byte_out 1 0 16 = Continue st1"
    by (auto split: ctl.splits)
  have "case fast_match_dispatch (safe_params 17 128) one_byte_out True 1 0 16 of
          FastContinue st' \<Rightarrow> True | _ \<Rightarrow> False"
    by code_simp
  then obtain st3 where
    s3: "fast_match_dispatch (safe_params 17 128) one_byte_out True 1 0 16 = FastContinue st3"
    by (auto split: fctl.splits)
  define st2 where "st2 = ctl_state (safe_match_copy (partial_params 17 10) one_byte_out 1 0 16)"
  from rle_offset_1[of "safe_params 17 29" one_byte_out 16 st1] s1 b c
  have "op st1 = 17 \<and> run_of (mem st1) 1 17 65" by (simp add: run_of_def)
  then have r1: "op st1 = 17 \<and> peek_block (mem st1) 1 16 = replicate 16 65"
    by (simp add: run_of_peek_block[of _ 1 17])
  from rle_offset_1[of "partial_params 17 10" one_byte_out 16 st2] b c
  have "op st2 = 10 \<and> run_of (mem st2) 1 10 65" by (simp add: run_of_def st2_def)
  then have r2: "op st2 = 10 \<and> peek_block (mem st2) 1 9 = replicate 9 65"
    by (simp add: run_of_peek_block[of _ 1 10])
  from rle_offset_1[of "safe_params 17 128" one_byte_out 16 st3 True] s3 b c
  have "op st3 = 17 \<and> run_of (mem st3) 1 17 65" by (simp add: run_of_def)
  then have r3: "op st3 = 17 \<and> peek_block (mem st3) 1 16 = replicate 16 65"
    by (simp add: run_of_peek_block[of _ 1 17])
  from s1 r1 r2 s3 r3 show ?thesis unfolding st2_def by blast
qed

end
